theory Spec2Isabelle
  imports Complex_Main "HOL-Library.Log_Nat" "HOL-Library.Word"
begin

section \<open>Values of the host language\<close>

subsection \<open>Strings\<close>

text \<open>
  A string is a sequence of UTF-16 code units, each a 16-bit word; its length and its
  indices count code units, as \<^verbatim>\<open>length\<close>, \<^verbatim>\<open>slice\<close> and \<^verbatim>\<open>indexOf\<close> do. \<open>js\<close> gives
  the string of a literal of the source, whose characters are all below 128.
\<close>

type_synonym codeUnit = "16 word"
type_synonym jsString = "codeUnit list"

definition js :: "string \<Rightarrow> jsString" where
  "js s = map (\<lambda>c. of_int (of_char c)) s"

subsection \<open>Numbers\<close>

text \<open>
  A number is an IEEE 754 binary64 value. \<open>Finite m e\<close> is the value \<open>m * 2 ^ e\<close>; the
  value of a finite double has such a pair with \<open>\<bar>m\<bar> < 2 ^ 53\<close> and \<open>- 1074 \<le> e \<le> 971\<close>,
  and the operations below accept every pair. The two zeros are one value here: the
  timeline code compares numbers and adds a non-zero constant, and neither tells the
  zeros apart.
\<close>

datatype double = Finite int int | PosInfinity | NegInfinity | NaN

text \<open>\<^verbatim>\<open>x < y\<close>, \<^verbatim>\<open>x <= y\<close> and \<^verbatim>\<open>x === y\<close>: exact on the values, false when either
  side is \<^verbatim>\<open>NaN\<close>.\<close>

fun dlt :: "double \<Rightarrow> double \<Rightarrow> bool" where
  "dlt NaN y = False"
| "dlt x NaN = False"
| "dlt (Finite m1 e1) (Finite m2 e2) =
     (let e = min e1 e2 in m1 * 2 ^ nat (e1 - e) < m2 * 2 ^ nat (e2 - e))"
| "dlt x NegInfinity = False"
| "dlt NegInfinity y = True"
| "dlt PosInfinity y = False"
| "dlt x PosInfinity = True"

fun dle :: "double \<Rightarrow> double \<Rightarrow> bool" where
  "dle NaN y = False"
| "dle x NaN = False"
| "dle (Finite m1 e1) (Finite m2 e2) =
     (let e = min e1 e2 in m1 * 2 ^ nat (e1 - e) \<le> m2 * 2 ^ nat (e2 - e))"
| "dle NegInfinity y = True"
| "dle x NegInfinity = False"
| "dle x PosInfinity = True"
| "dle PosInfinity y = False"

fun deq :: "double \<Rightarrow> double \<Rightarrow> bool" where
  "deq NaN y = False"
| "deq x NaN = False"
| "deq (Finite m1 e1) (Finite m2 e2) =
     (let e = min e1 e2 in m1 * 2 ^ nat (e1 - e) = m2 * 2 ^ nat (e2 - e))"
| "deq PosInfinity PosInfinity = True"
| "deq NegInfinity NegInfinity = True"
| "deq x y = False"

text \<open>\<open>m / 2 ^ k\<close> rounded to the nearest integer, a tie going to the even one.\<close>

definition roundHalfEven :: "int \<Rightarrow> nat \<Rightarrow> int" where
  "roundHalfEven m k =
     (let d = 2 ^ k; q = m div d; r = m mod d
      in if 2 * r < d then q else if d < 2 * r then q + 1 else if even q then q else q + 1)"

text \<open>
  The double nearest to \<open>m * 2 ^ e\<close>. With \<open>bitlen \<bar>m\<bar> + e\<close> the position of the leading
  bit, the result is a multiple of \<open>2 ^ p\<close>, where \<open>p\<close> leaves 53 significant bits and is
  no smaller than the exponent \<open>- 1074\<close> of the subnormal numbers; a result of \<open>2 ^ 1024\<close>
  or more is an infinity.
\<close>

definition roundToDouble :: "int \<Rightarrow> int \<Rightarrow> double" where
  "roundToDouble m e =
     (if m = 0 then Finite 0 0
      else
        let p = max (bitlen \<bar>m\<bar> + e - 53) (- 1074);
            b = min e p;
            n = roundHalfEven (m * 2 ^ nat (e - b)) (nat (p - b))
        in if bitlen \<bar>n\<bar> + p > 1024 then (if 0 < m then PosInfinity else NegInfinity)
           else Finite n p)"

text \<open>\<^verbatim>\<open>x + y\<close>: the exact sum, rounded.\<close>

fun dadd :: "double \<Rightarrow> double \<Rightarrow> double" where
  "dadd NaN y = NaN"
| "dadd x NaN = NaN"
| "dadd (Finite m1 e1) (Finite m2 e2) =
     (let e = min e1 e2 in roundToDouble (m1 * 2 ^ nat (e1 - e) + m2 * 2 ^ nat (e2 - e)) e)"
| "dadd PosInfinity NegInfinity = NaN"
| "dadd NegInfinity PosInfinity = NaN"
| "dadd PosInfinity y = PosInfinity"
| "dadd x PosInfinity = PosInfinity"
| "dadd NegInfinity y = NegInfinity"
| "dadd x NegInfinity = NegInfinity"

text \<open>\<^verbatim>\<open>x - y\<close> is the rounded exact difference, the sum of \<open>x\<close> and the negated \<open>y\<close>.\<close>

fun dneg :: "double \<Rightarrow> double" where
  "dneg (Finite m e) = Finite (- m) e"
| "dneg PosInfinity = NegInfinity"
| "dneg NegInfinity = PosInfinity"
| "dneg NaN = NaN"

definition dsub :: "double \<Rightarrow> double \<Rightarrow> double" where
  "dsub x y = dadd x (dneg y)"

text \<open>The real number a finite double stands for.\<close>

fun exactValue :: "double \<Rightarrow> real" where
  "exactValue (Finite m e) = of_int m * 2 powi e"
| "exactValue x = 0"

section \<open>Data model (types.ts)\<close>

text \<open>
  The records follow the interfaces of \<^verbatim>\<open>types.ts\<close>. An optional field
  (\<^verbatim>\<open>imageData?: string\<close>) is an \<open>option\<close>, \<open>None\<close> standing for
  \<^verbatim>\<open>undefined\<close>. Field names that would clash with a constant of HOL or with a field
  of another record carry a prefix: \<open>lineId\<close> is \<^verbatim>\<open>ScriptLine.id\<close>, \<open>sessionBatchId\<close>
  is \<^verbatim>\<open>ApiKeySession.batchId\<close>, \<open>entryId\<close>, \<open>entryText\<close> and \<open>entryImage\<close> are
  \<^verbatim>\<open>TimelineEntry.id\<close>, \<^verbatim>\<open>.text\<close> and \<^verbatim>\<open>.image\<close>.
\<close>

datatype status = Pending | Generating | Completed | Failed

record ScriptLine =
  lineId :: jsString
  originalText :: jsString
  spokenText :: jsString
  imagePrompt :: jsString
  status :: status
  imageData :: "jsString option"
  imageFileName :: "jsString option"
  batchId :: "int option"
  timestamp :: "jsString option"
  error :: "jsString option"

record ApiKeySession =
  key :: jsString
  limit :: int
  used :: int
  isValid :: bool
  sessionBatchId :: int

text \<open>Times are seconds, as numbers of the host language.\<close>

record TimelineEntry =
  entryId :: jsString
  scriptLineId :: jsString
  startTime :: double
  endTime :: double
  entryText :: jsString
  entryImage :: jsString

text \<open>\<^verbatim>\<open>export const MIN_IMAGE_DURATION = 0.8\<close>: the literal denotes the double nearest
  to 8/10, which is \<open>7205759403792794 * 2 ^ - 53\<close>, a little above 8/10.\<close>

definition MIN_IMAGE_DURATION :: double where
  "MIN_IMAGE_DURATION = Finite 7205759403792794 (- 53)"

section \<open>String primitives of the host language\<close>

text \<open>The character class \<^verbatim>\<open>[a-z0-9]\<close>; the pattern has no \<^verbatim>\<open>u\<close> flag, so it is
  matched against single code units.\<close>

definition isLowerAlnum :: "codeUnit \<Rightarrow> bool" where
  "isLowerAlnum c = ((0x61 \<le> c \<and> c \<le> 0x7A) \<or> (0x30 \<le> c \<and> c \<le> 0x39))"

text \<open>
  The host environment: everything the component reads from outside its own code and
  its collaborators. \<^verbatim>\<open>String.prototype.toLowerCase\<close> follows the Unicode case
  tables, which are not part of the program: on a text with a code unit of 128 or more
  it is whatever function the host supplies (\<open>unicodeLowerCase\<close>), of any length and
  content. \<open>toISOString\<close> is the reading of the clock
  (\<^verbatim>\<open>new Date().toISOString()\<close>) taken when the line at the given index completes.
\<close>

record Host =
  unicodeLowerCase :: "jsString \<Rightarrow> jsString"
  toISOString :: "nat \<Rightarrow> jsString"

text \<open>On a text of code units below 128, \<^verbatim>\<open>toLowerCase\<close> moves A to Z to a to z and
  keeps every other code unit.\<close>

definition asciiLowerCase :: "codeUnit \<Rightarrow> codeUnit" where
  "asciiLowerCase c = (if 0x41 \<le> c \<and> c \<le> 0x5A then c + 0x20 else c)"

definition toLowerCase :: "Host \<Rightarrow> jsString \<Rightarrow> jsString" where
  "toLowerCase host s =
     (if list_all (\<lambda>c. c < 0x80) s then map asciiLowerCase s else unicodeLowerCase host s)"

text \<open>White space and line terminators as \<^verbatim>\<open>trim\<close> sees them: tab, line feed,
  vertical tab, form feed, carriage return, space, no-break space, the other space
  separators of Unicode, line and paragraph separator, and the byte order mark.\<close>

definition isWhiteSpace :: "codeUnit \<Rightarrow> bool" where
  "isWhiteSpace c =
     (if c \<le> 0xA0 then (0x09 \<le> c \<and> c \<le> 0x0D) \<or> c = 0x20 \<or> c = 0xA0
      else c = 0x1680 \<or> (0x2000 \<le> c \<and> c \<le> 0x200A) \<or> c = 0x2028 \<or> c = 0x2029
           \<or> c = 0x202F \<or> c = 0x205F \<or> c = 0x3000 \<or> c = 0xFEFF)"

definition trim :: "jsString \<Rightarrow> jsString" where
  "trim s = rev (dropWhile isWhiteSpace (rev (dropWhile isWhiteSpace s)))"

text \<open>\<^verbatim>\<open>s.indexOf(c)\<close>: the first position of \<open>c\<close>, \<open>None\<close> for \<^verbatim>\<open>-1\<close>.\<close>

fun indexOf :: "codeUnit \<Rightarrow> jsString \<Rightarrow> nat option" where
  "indexOf c [] = None"
| "indexOf c (x # xs) =
     (if x = c then Some 0 else map_option Suc (indexOf c xs))"

text \<open>\<^verbatim>\<open>s.split(d)\<close> for a one-character separator: never empty, one more piece than
  there are separators.\<close>

fun splitOn :: "codeUnit \<Rightarrow> jsString \<Rightarrow> jsString list" where
  "splitOn d [] = [[]]"
| "splitOn d (c # cs) =
     (if c = d then [] # splitOn d cs
      else (case splitOn d cs of [] \<Rightarrow> [[c]] | l # ls \<Rightarrow> (c # l) # ls))"

text \<open>Decimal rendering of an index inside a template literal.\<close>

definition digitChar :: "nat \<Rightarrow> codeUnit" where
  "digitChar d = of_nat (48 + d)"

fun showNat :: "nat \<Rightarrow> jsString" where
  "showNat n = (if n < 10 then [digitChar n] else showNat (n div 10) @ [digitChar (n mod 10)])"

declare showNat.simps [simp del]

text \<open>The code units of \<^verbatim>\<open>_\<close>, \<^verbatim>\<open>|\<close> and of the line feed.\<close>

definition underscore :: codeUnit where
  "underscore = 0x5F"

definition pipe :: codeUnit where
  "pipe = 0x7C"

definition newline :: codeUnit where
  "newline = 0x0A"

section \<open>Helpers of the component\<close>

text \<open>\<^verbatim>\<open>text.toLowerCase().replace(/[^a-z0-9]/g, '_').slice(0, 50)\<close>: the pattern has no
  repetition operator, so the global replace rewrites one code unit at a time.\<close>

definition sanitizeFilename :: "Host \<Rightarrow> jsString \<Rightarrow> jsString" where
  "sanitizeFilename host t =
     take 50 (map (\<lambda>c. if isLowerAlnum c then c else underscore) (toLowerCase host t))"

text \<open>The name stored on success: \<^verbatim>\<open>sanitizeFilename(line.spokenText) + '.png'\<close>.\<close>

definition imageFileNameOf :: "Host \<Rightarrow> jsString \<Rightarrow> jsString" where
  "imageFileNameOf host t = sanitizeFilename host t @ js ''.png''"

section \<open>Script parser (handleTxtUpload)\<close>

definition nonBlank :: "jsString \<Rightarrow> bool" where
  "nonBlank l = (length (trim l) > 0)"

text \<open>The body of the \<^verbatim>\<open>map\<close> callback.\<close>

definition parseLine :: "nat \<Rightarrow> jsString \<Rightarrow> ScriptLine" where
  "parseLine idx line =
     (let (scriptPart, promptPart) =
        (case indexOf pipe line of
           Some pipeIndex \<Rightarrow> (trim (take pipeIndex line), trim (drop (pipeIndex + 1) line))
         | None \<Rightarrow> (trim line, []))
      in \<lparr> lineId = js ''line-'' @ showNat idx,
           originalText = line,
           spokenText = scriptPart,
           imagePrompt = promptPart,
           status = Pending,
           imageData = None,
           imageFileName = None,
           batchId = None,
           timestamp = None,
           error = None \<rparr>)"

text \<open>\<^verbatim>\<open>lines.map((line, idx) => ...)\<close> with the running index.\<close>

fun mapIdx :: "(nat \<Rightarrow> 'a \<Rightarrow> 'b) \<Rightarrow> nat \<Rightarrow> 'a list \<Rightarrow> 'b list" where
  "mapIdx f i [] = []"
| "mapIdx f i (x # xs) = f i x # mapIdx f (Suc i) xs"

definition scriptInputLines :: "jsString \<Rightarrow> jsString list" where
  "scriptInputLines t = filter nonBlank (splitOn newline t)"

definition parseScript :: "jsString \<Rightarrow> ScriptLine list" where
  "parseScript t = mapIdx parseLine 0 (scriptInputLines t)"

section \<open>Collaborators and observable effects\<close>

text \<open>
  The image-generation collaborator (\<^verbatim>\<open>generateImageForLine\<close>) is outside the
  component. A call resolves with a payload (\<^verbatim>\<open>result.base64\<close>), rejects with the
  distinguished \<^verbatim>\<open>QuotaError\<close>, or rejects with some other error carrying a
  \<^verbatim>\<open>message\<close>. Within one run the pair (line index, attempt number) identifies a call,
  since the index only grows and the attempt counter restarts at each line; a generator
  is therefore any function from that pair to an outcome.
\<close>

datatype gen_result = Image jsString | QuotaError jsString | OtherError jsString

type_synonym generator = "nat \<Rightarrow> nat \<Rightarrow> gen_result"

text \<open>Template literals are kept as constructors holding the interpolated values.\<close>

datatype log_message =
    LogLoaded nat
  | LogAllCompleted
  | LogProcessingFrom nat
  | LogGenerating nat
  | LogQuotaError jsString
  | LogLineFailed nat
  | LogAllProcessed
  | LogBatchLimit int

datatype error_message = ErrEmptyFile | ErrQuotaExhaustedAt nat

datatype modal_message =
    MsgEnterValidKey
  | MsgInitialSetup
  | MsgQuotaPrompt
  | MsgBatchComplete int

datatype AppStage =
  SETUP | SCRIPT_INPUT | IMAGE_GENERATION | AUDIO_SYNC | RENDERING | COMPLETED

text \<open>Every state setter, collaborator call and timer of \<^verbatim>\<open>processBatch\<close> leaves an
  event, in program order.\<close>

datatype event =
    SetIsProcessingBatch bool
  | SetError "error_message option"
  | AddLog log_message
  | SetScriptLines "ScriptLine list"
  | SetStage AppStage
  | GenerateCall nat nat gen_result
  | SetApiKeySession ApiKeySession
  | ConsoleWarn nat nat
  | Backoff nat
  | SetKeyModalMessage modal_message
  | SetTempKey jsString
  | SetShowKeyModal bool

text \<open>
  The component state. \<open>scriptLines\<close> holds the line objects themselves: the local
  array \<^verbatim>\<open>lines = [...scriptLines]\<close> is a shallow copy, so it shares every line
  object with the state array, neither array is ever resized, and a write to
  \<^verbatim>\<open>line.status\<close> is a write to the one sequence. \<open>currentSession\<close> is the local
  copy of the session that \<^verbatim>\<open>processBatch\<close> counts on. \<open>errorMsg\<close> is the state
  variable \<^verbatim>\<open>error\<close>.
\<close>

record AppState =
  stage :: AppStage
  errorMsg :: "error_message option"
  logs :: "log_message list"
  apiKeySession :: "ApiKeySession option"
  tempKey :: jsString
  showKeyModal :: bool
  keyModalMessage :: modal_message
  scriptLines :: "ScriptLine list"
  isProcessingBatch :: bool
  currentSession :: ApiKeySession
  trace :: "event list"

definition emit :: "event \<Rightarrow> AppState \<Rightarrow> AppState" where
  "emit ev st = st\<lparr>trace := trace st @ [ev]\<rparr>"

definition addLog :: "log_message \<Rightarrow> AppState \<Rightarrow> AppState" where
  "addLog msg st = emit (AddLog msg) (st\<lparr>logs := drop (length (logs st) - 9) (logs st) @ [msg]\<rparr>)"

definition setError :: "error_message option \<Rightarrow> AppState \<Rightarrow> AppState" where
  "setError e st = emit (SetError e) (st\<lparr>errorMsg := e\<rparr>)"

definition setIsProcessingBatch :: "bool \<Rightarrow> AppState \<Rightarrow> AppState" where
  "setIsProcessingBatch b st = emit (SetIsProcessingBatch b) (st\<lparr>isProcessingBatch := b\<rparr>)"

definition setScriptLines :: "ScriptLine list \<Rightarrow> AppState \<Rightarrow> AppState" where
  "setScriptLines ls st = emit (SetScriptLines ls) (st\<lparr>scriptLines := ls\<rparr>)"

definition setStage :: "AppStage \<Rightarrow> AppState \<Rightarrow> AppState" where
  "setStage g st = emit (SetStage g) (st\<lparr>stage := g\<rparr>)"

definition setApiKeySession :: "ApiKeySession \<Rightarrow> AppState \<Rightarrow> AppState" where
  "setApiKeySession s st = emit (SetApiKeySession s) (st\<lparr>apiKeySession := Some s\<rparr>)"

definition setKeyModalMessage :: "modal_message \<Rightarrow> AppState \<Rightarrow> AppState" where
  "setKeyModalMessage m st = emit (SetKeyModalMessage m) (st\<lparr>keyModalMessage := m\<rparr>)"

definition setTempKey :: "jsString \<Rightarrow> AppState \<Rightarrow> AppState" where
  "setTempKey k st = emit (SetTempKey k) (st\<lparr>tempKey := k\<rparr>)"

definition setShowKeyModal :: "bool \<Rightarrow> AppState \<Rightarrow> AppState" where
  "setShowKeyModal b st = emit (SetShowKeyModal b) (st\<lparr>showKeyModal := b\<rparr>)"

text \<open>\<^verbatim>\<open>Array.prototype.findIndex\<close>, \<open>None\<close> for \<^verbatim>\<open>-1\<close>.\<close>

fun findIndex :: "('a \<Rightarrow> bool) \<Rightarrow> 'a list \<Rightarrow> nat option" where
  "findIndex P [] = None"
| "findIndex P (x # xs) = (if P x then Some 0 else map_option Suc (findIndex P xs))"

text \<open>The \<^verbatim>\<open>onload\<close> callback of \<^verbatim>\<open>handleTxtUpload\<close>, given the text read.\<close>

definition handleTxtUpload :: "jsString \<Rightarrow> AppState \<Rightarrow> AppState" where
  "handleTxtUpload t st =
     (if t = [] then st
      else
        let parsed = parseScript t in
        if length parsed > 0 then
          addLog (LogLoaded (length parsed))
            (setShowKeyModal True
              (setKeyModalMessage MsgInitialSetup
                (setStage IMAGE_GENERATION
                  (setScriptLines parsed st))))
        else setError (Some ErrEmptyFile) st)"

section \<open>Batch generation controller (processBatch)\<close>

text \<open>The blocks of straight-line code of the loop bodies, one definition each.\<close>

text \<open>\<^verbatim>\<open>// Prepare UI for generation\<close>\<close>

definition prepareLine :: "nat \<Rightarrow> AppState \<Rightarrow> AppState" where
  "prepareLine resumeIndex st =
     (let line = scriptLines st ! resumeIndex;
          line = line\<lparr>status := Generating, error := None\<rparr>;
          st = st\<lparr>scriptLines := (scriptLines st)[resumeIndex := line]\<rparr>
      in addLog (LogGenerating (resumeIndex + 1)) (emit (SetScriptLines (scriptLines st)) st))"

text \<open>\<^verbatim>\<open>// Success\<close>: the statements after the awaited call resolves.\<close>

definition onSuccess :: "Host \<Rightarrow> nat \<Rightarrow> jsString \<Rightarrow> AppState \<Rightarrow> AppState" where
  "onSuccess host resumeIndex base64 st =
     (let line = scriptLines st ! resumeIndex;
          line = line\<lparr>imageData := Some base64,
                      imageFileName := Some (imageFileNameOf host (spokenText line)),
                      status := Completed,
                      batchId := Some (sessionBatchId (currentSession st)),
                      timestamp := Some (toISOString host resumeIndex)\<rparr>;
          session = (currentSession st)\<lparr>used := used (currentSession st) + 1\<rparr>
      in setApiKeySession session
           (st\<lparr>scriptLines := (scriptLines st)[resumeIndex := line],
               currentSession := session\<rparr>))"

text \<open>The branch \<^verbatim>\<open>attempts >= 3\<close> of the inner \<^verbatim>\<open>catch\<close>.\<close>

definition onAttemptsExhausted :: "nat \<Rightarrow> jsString \<Rightarrow> AppState \<Rightarrow> AppState" where
  "onAttemptsExhausted resumeIndex message st =
     (let line = scriptLines st ! resumeIndex;
          line = line\<lparr>status := Failed, error := Some message\<rparr>
      in addLog (LogLineFailed (resumeIndex + 1))
           (st\<lparr>scriptLines := (scriptLines st)[resumeIndex := line]\<rparr>))"

text \<open>\<^verbatim>\<open>// QUOTA HIT: Stop everything, save state, prompt user\<close>\<close>

definition onQuotaHit :: "nat \<Rightarrow> AppState \<Rightarrow> AppState" where
  "onQuotaHit resumeIndex st =
     (let line = scriptLines st ! resumeIndex;
          line = line\<lparr>status := Pending\<rparr>;
          st = st\<lparr>scriptLines := (scriptLines st)[resumeIndex := line]\<rparr>
      in setShowKeyModal True
           (setTempKey []
             (setKeyModalMessage MsgQuotaPrompt
               (setError (Some (ErrQuotaExhaustedAt (resumeIndex + 1)))
                 (setIsProcessingBatch False
                   (emit (SetScriptLines (scriptLines st)) st))))))"

text \<open>
  The retry loop \<^verbatim>\<open>while (attempts < 3 && !success)\<close> of one line. \<open>Inl\<close> is the
  rethrown \<^verbatim>\<open>QuotaError\<close> together with the state at the throw; \<open>Inr\<close> is the state
  when the loop ends normally.
\<close>

function retryLoop ::
  "generator \<Rightarrow> Host \<Rightarrow> nat \<Rightarrow> nat \<Rightarrow> bool \<Rightarrow> AppState \<Rightarrow> (jsString \<times> AppState) + AppState" where
  "retryLoop gen host resumeIndex attempts success st =
     (if attempts < 3 \<and> \<not> success then
        (case gen resumeIndex (attempts + 1) of
           Image base64 \<Rightarrow>
             retryLoop gen host resumeIndex (attempts + 1) True
               (onSuccess host resumeIndex base64
                 (emit (GenerateCall resumeIndex (attempts + 1) (Image base64)) st))
         | QuotaError message \<Rightarrow>
             Inl (message,
                  addLog (LogQuotaError message)
                    (emit (GenerateCall resumeIndex (attempts + 1) (QuotaError message)) st))
         | OtherError message \<Rightarrow>
             (if attempts + 1 \<ge> 3 then
                retryLoop gen host resumeIndex (attempts + 1) success
                  (onAttemptsExhausted resumeIndex message
                    (emit (ConsoleWarn (attempts + 1) resumeIndex)
                      (emit (GenerateCall resumeIndex (attempts + 1) (OtherError message)) st)))
              else
                retryLoop gen host resumeIndex (attempts + 1) success
                  (emit (Backoff 1500)
                    (emit (ConsoleWarn (attempts + 1) resumeIndex)
                      (emit (GenerateCall resumeIndex (attempts + 1) (OtherError message)) st)))))
      else Inr st)"
  by pat_completeness auto
termination
  by (relation "measure (\<lambda>(gen, host, resumeIndex, attempts, success, st). 3 - attempts)") auto

declare retryLoop.simps [simp del]

text \<open>
  One pass through the body of the outer \<^verbatim>\<open>while\<close>. \<open>Inl\<close>: the function
  returned from the quota handler. \<open>Inr\<close>: the next value of \<^verbatim>\<open>resumeIndex\<close> and
  the state at the end of the pass. Nothing but the rethrown \<^verbatim>\<open>QuotaError\<close> reaches
  the outer \<^verbatim>\<open>catch\<close>, since the three outcomes of a call are all handled inside.
\<close>

definition loopBody ::
  "generator \<Rightarrow> Host \<Rightarrow> nat \<Rightarrow> AppState \<Rightarrow> AppState + (nat \<times> AppState)" where
  "loopBody gen host resumeIndex st =
     (if status (scriptLines st ! resumeIndex) = Completed then Inr (resumeIndex + 1, st)
      else
        (case retryLoop gen host resumeIndex 0 False (prepareLine resumeIndex st) of
           Inr st' \<Rightarrow> Inr (resumeIndex + 1, emit (SetScriptLines (scriptLines st')) st')
         | Inl (message, st') \<Rightarrow> Inl (onQuotaHit resumeIndex st')))"

text \<open>
  The outer loop \<^verbatim>\<open>while (resumeIndex < lines.length && currentSession.used <
  currentSession.limit)\<close>. \<open>Inl\<close>: \<^verbatim>\<open>processBatch\<close> returned from inside the loop;
  \<open>Inr\<close>: the loop condition became false.
\<close>

function batchLoop ::
  "generator \<Rightarrow> Host \<Rightarrow> nat \<Rightarrow> AppState \<Rightarrow> AppState + AppState" where
  "batchLoop gen host resumeIndex st =
     (if resumeIndex < length (scriptLines st)
         \<and> used (currentSession st) < limit (currentSession st)
      then (case loopBody gen host resumeIndex st of
              Inl st' \<Rightarrow> Inl st'
            | Inr (resumeIndex', st') \<Rightarrow> batchLoop gen host resumeIndex' st')
      else Inr st)"
  by pat_completeness auto
termination
proof (relation "measure (\<lambda>(gen, host, resumeIndex, st). length (scriptLines st) - resumeIndex)")
  show "wf (measure (\<lambda>(gen :: generator, host :: Host, resumeIndex, st).
              length (scriptLines st) - resumeIndex))"
    by simp
next
  fix gen :: generator and host :: Host and resumeIndex st x2 r' st'
  assume a: "resumeIndex < length (scriptLines st)
               \<and> used (currentSession st) < limit (currentSession st)"
    and b: "loopBody gen host resumeIndex st = Inr x2" and c: "(r', st') = x2"
  have e: "length (scriptLines (emit ev s)) = length (scriptLines s)" for ev s
    by (simp add: emit_def)
  have s1: "length (scriptLines (onSuccess host resumeIndex b s)) = length (scriptLines s)" for b s
    by (simp add: onSuccess_def Let_def setApiKeySession_def emit_def)
  have s2: "length (scriptLines (onAttemptsExhausted resumeIndex m s)) = length (scriptLines s)"
    for m s
    by (simp add: onAttemptsExhausted_def Let_def addLog_def emit_def)
  have s3: "length (scriptLines (prepareLine resumeIndex s)) = length (scriptLines s)" for s
    by (simp add: prepareLine_def Let_def addLog_def emit_def)
  have len: "length (scriptLines s') = length (scriptLines s)"
    if "retryLoop gen host resumeIndex k ok s = Inr s'" for k ok s s'
    using that
  proof (induction "3 - k" arbitrary: k ok s)
    case 0
    then show ?case by (simp add: retryLoop.simps)
  next
    case (Suc n)
    from Suc.prems Suc.hyps(2) show ?case
      by (subst (asm) retryLoop.simps)
         (auto simp: e s1 s2 split: if_splits gen_result.splits dest!: Suc.hyps(1) [rotated])
  qed
  have "r' = resumeIndex + 1 \<and> length (scriptLines st') = length (scriptLines st)"
    using b c
    by (auto simp: loopBody_def e s3 split: if_splits sum.splits prod.splits dest!: len)
  with a show "((gen, host, r', st'), gen, host, resumeIndex, st)
       \<in> measure (\<lambda>(gen, host, resumeIndex, st). length (scriptLines st) - resumeIndex)"
    by auto
qed

declare batchLoop.simps [simp del]

text \<open>\<^verbatim>\<open>// Check why we exited\<close>: the statements after the loop.\<close>

definition afterLoop :: "AppState \<Rightarrow> AppState" where
  "afterLoop st =
     (case findIndex (\<lambda>l. status l = Pending) (scriptLines st) of
        None \<Rightarrow> emit (SetScriptLines (scriptLines st)) (addLog LogAllProcessed st)
      | Some nextPending \<Rightarrow>
          if used (currentSession st) \<ge> limit (currentSession st) then
            setShowKeyModal True
              (setTempKey []
                (setKeyModalMessage (MsgBatchComplete (limit (currentSession st)))
                  (addLog (LogBatchLimit (limit (currentSession st))) st)))
          else st)"

definition processBatch :: "generator \<Rightarrow> Host \<Rightarrow> ApiKeySession \<Rightarrow> AppState \<Rightarrow> AppState" where
  "processBatch gen host session st =
     (if isProcessingBatch st then st
      else
        let st = setError None (setIsProcessingBatch True st);
            st = st\<lparr>currentSession := session\<rparr>
        in (case findIndex (\<lambda>l. status l = Pending \<or> status l = Failed) (scriptLines st) of
              None \<Rightarrow> setIsProcessingBatch False (addLog LogAllCompleted st)
            | Some resumeIndex \<Rightarrow>
                (case batchLoop gen host resumeIndex
                        (addLog (LogProcessingFrom (resumeIndex + 1)) st) of
                   Inl st' \<Rightarrow> st'
                 | Inr st' \<Rightarrow> afterLoop (setIsProcessingBatch False st'))))"

text \<open>The state in which the loop starts: the statements of \<^verbatim>\<open>processBatch\<close> before
  the loop, when there is a line to resume at.\<close>

definition loopStart :: "ApiKeySession \<Rightarrow> nat \<Rightarrow> AppState \<Rightarrow> AppState" where
  "loopStart session r st =
     addLog (LogProcessingFrom (r + 1))
       ((setError None (setIsProcessingBatch True st))\<lparr>currentSession := session\<rparr>)"

text \<open>The events between two states of one execution, and those of one call of
  \<^verbatim>\<open>processBatch\<close>.\<close>

definition eventsSince :: "AppState \<Rightarrow> AppState \<Rightarrow> event list" where
  "eventsSince st st' = drop (length (trace st)) (trace st')"

definition runEvents :: "generator \<Rightarrow> Host \<Rightarrow> ApiKeySession \<Rightarrow> AppState \<Rightarrow> event list" where
  "runEvents gen host session st = eventsSince st (processBatch gen host session st)"

text \<open>The state in which the loop is left, by return or by exit.\<close>

definition outcomeState :: "AppState + AppState \<Rightarrow> AppState" where
  "outcomeState res = (case res of Inl st \<Rightarrow> st | Inr st \<Rightarrow> st)"

text \<open>
  The line sequences the component can hold when a run starts: lines come from the
  parser, and nothing but \<^verbatim>\<open>processBatch\<close> writes to them afterwards.
\<close>

inductive reachableLines :: "ScriptLine list \<Rightarrow> bool" where
  initial: "reachableLines []"
| uploaded: "reachableLines (parseScript t)"
| processed: "reachableLines (scriptLines st) \<Longrightarrow>
              reachableLines (scriptLines (processBatch gen host session st))"

subsection \<open>Observations on a trace\<close>

fun isSuccessCall :: "event \<Rightarrow> bool" where
  "isSuccessCall (GenerateCall i k (Image b)) = True"
| "isSuccessCall _ = False"

fun isQuotaCall :: "event \<Rightarrow> bool" where
  "isQuotaCall (GenerateCall i k (QuotaError m)) = True"
| "isQuotaCall _ = False"

fun isGenerateCall :: "event \<Rightarrow> bool" where
  "isGenerateCall (GenerateCall i k r) = True"
| "isGenerateCall _ = False"

fun isCallOrBackoff :: "event \<Rightarrow> bool" where
  "isCallOrBackoff (GenerateCall i k r) = True"
| "isCallOrBackoff (Backoff ms) = True"
| "isCallOrBackoff _ = False"

text \<open>What follows the first quota signal in a trace.\<close>

definition eventsAfterQuota :: "event list \<Rightarrow> event list" where
  "eventsAfterQuota tr = tl (dropWhile (\<lambda>ev. \<not> isQuotaCall ev) tr)"

definition successes :: "event list \<Rightarrow> nat" where
  "successes tr = length (filter isSuccessCall tr)"

text \<open>Every published session snapshot stays within its budget.\<close>

fun snapshotWithinBudget :: "event \<Rightarrow> bool" where
  "snapshotWithinBudget (SetApiKeySession s) = (used s \<le> limit s)"
| "snapshotWithinBudget _ = True"

text \<open>Replay of a trace against a remaining budget: each call to the generator is made
  while some budget remains, and each success uses one unit of it.\<close>

fun callsWithinBudget :: "int \<Rightarrow> event list \<Rightarrow> bool" where
  "callsWithinBudget remaining [] = True"
| "callsWithinBudget remaining (GenerateCall i k (Image b) # tr) =
     (0 < remaining \<and> callsWithinBudget (remaining - 1) tr)"
| "callsWithinBudget remaining (GenerateCall i k r # tr) =
     (0 < remaining \<and> callsWithinBudget remaining tr)"
| "callsWithinBudget remaining (ev # tr) = callsWithinBudget remaining tr"

section \<open>Timeline alignment and normalization (handleSync)\<close>

text \<open>An alignment hint as \<^verbatim>\<open>handleSync\<close> reads it from the alignment collaborator:
  \<^verbatim>\<open>a.lineId\<close>, \<^verbatim>\<open>a.startTime\<close>, \<^verbatim>\<open>a.endTime\<close>.\<close>

record Alignment =
  alignLineId :: jsString
  alignStartTime :: double
  alignEndTime :: double

definition fallbackDurationPerSlide :: double where
  "fallbackDurationPerSlide = Finite 3 0"

text \<open>\<^verbatim>\<open>scriptLines.filter(l => l.status === 'completed' && l.imageData)\<close>: a payload
  is truthy when it is present and not the empty string.\<close>

definition completedLinesOf :: "ScriptLine list \<Rightarrow> ScriptLine list" where
  "completedLinesOf ls =
     filter (\<lambda>l. status l = Completed \<and> imageData l \<noteq> None \<and> imageData l \<noteq> Some []) ls"

definition timelineEntryOf :: "Alignment list \<Rightarrow> ScriptLine \<Rightarrow> TimelineEntry" where
  "timelineEntryOf alignments line =
     (let align = find (\<lambda>a. alignLineId a = lineId line) alignments in
      \<lparr> entryId = lineId line,
        scriptLineId = lineId line,
        startTime = (case align of Some a \<Rightarrow> alignStartTime a | None \<Rightarrow> Finite 0 0),
        endTime = (case align of Some a \<Rightarrow> alignEndTime a | None \<Rightarrow> Finite 0 0),
        entryText = spokenText line,
        entryImage = js ''data:image/png;base64,''
                       @ (case imageData line of Some d \<Rightarrow> d | None \<Rightarrow> js ''undefined'') \<rparr>)"

text \<open>\<^verbatim>\<open>// Fallback Logic: Fix gaps, overlaps, min duration\<close>: the body of the
  \<^verbatim>\<open>for\<close> loop over \<^verbatim>\<open>newTimeline\<close>, given \<^verbatim>\<open>lastEnd\<close>. Both sums are sums of
  doubles, and the rounded sum is what is compared and stored.\<close>

definition normalizeEntry :: "double \<Rightarrow> TimelineEntry \<Rightarrow> TimelineEntry" where
  "normalizeEntry lastEnd t =
     (let t = (if dlt (startTime t) lastEnd then t\<lparr>startTime := lastEnd\<rparr> else t)
      in if dle (endTime t) (dadd (startTime t) MIN_IMAGE_DURATION) then
           (if deq (endTime t) (Finite 0 0)
            then t\<lparr>endTime := dadd (startTime t) fallbackDurationPerSlide\<rparr>
            else t\<lparr>endTime := dadd (startTime t) MIN_IMAGE_DURATION\<rparr>)
         else t)"

text \<open>The loop itself; \<^verbatim>\<open>lastEnd = t.endTime\<close> after each entry.\<close>

fun normalizeFrom :: "double \<Rightarrow> TimelineEntry list \<Rightarrow> TimelineEntry list" where
  "normalizeFrom lastEnd [] = []"
| "normalizeFrom lastEnd (t # ts) =
     normalizeEntry lastEnd t # normalizeFrom (endTime (normalizeEntry lastEnd t)) ts"

definition normalizeTimeline :: "TimelineEntry list \<Rightarrow> TimelineEntry list" where
  "normalizeTimeline ts = normalizeFrom (Finite 0 0) ts"

definition handleSync :: "ScriptLine list \<Rightarrow> Alignment list \<Rightarrow> TimelineEntry list" where
  "handleSync ls alignments =
     normalizeTimeline (map (timelineEntryOf alignments) (completedLinesOf ls))"

text \<open>The credential that \<^verbatim>\<open>handleSync\<close> hands to the alignment collaborator:
  \<^verbatim>\<open>apiKeySession.key\<close>; without a session it asks for a key and makes no call.\<close>

definition syncCredential :: "AppState \<Rightarrow> jsString option" where
  "syncCredential st = map_option key (apiKeySession st)"

section \<open>The derived filename as the specification words it\<close>

text \<open>Every run of consecutive characters outside \<^verbatim>\<open>[a-z0-9]\<close> becomes one
  separator; \<open>inRun\<close> records that the previous character was outside the class.\<close>

fun collapseRuns :: "bool \<Rightarrow> jsString \<Rightarrow> jsString" where
  "collapseRuns inRun [] = []"
| "collapseRuns inRun (c # cs) =
     (if isLowerAlnum c then c # collapseRuns False cs
      else if inRun then collapseRuns True cs
      else underscore # collapseRuns True cs)"

definition specFilename :: "Host \<Rightarrow> jsString \<Rightarrow> jsString" where
  "specFilename host t = take 50 (collapseRuns False (toLowerCase host t)) @ js ''.png''"

section \<open>Concrete inputs used below\<close>

text \<open>A host whose \<^verbatim>\<open>toLowerCase\<close> knows three rules of the Unicode tables: A to Z,
  the capital I with dot above (U+0130), which becomes \<^verbatim>\<open>i\<close> followed by the
  combining dot above (U+0307), and the Kelvin sign (U+212A), which becomes \<^verbatim>\<open>k\<close>.
  Its clock is fixed.\<close>

definition exampleHost :: Host where
  "exampleHost =
     \<lparr>unicodeLowerCase =
        (\<lambda>s. concat (map (\<lambda>c. if c = 0x0130 then [0x69, 0x0307]
                                else if c = 0x212A then [0x6B]
                                else [asciiLowerCase c]) s)),
      toISOString = (\<lambda>i. js ''2024-01-01T00:00:00.000Z'')\<rparr>"

text \<open>The narration \<^verbatim>\<open>Istanbul 5K\<close>, written with U+0130 for its first letter and
  with the Kelvin sign for its last.\<close>

definition exampleNarration :: jsString where
  "exampleNarration = [0x0130] @ js ''stanbul 5'' @ [0x212A]"

text \<open>Hints for three lines A, B, C in document order: A at 0 to 2 seconds, none for B,
  C at 1 to 3 seconds.\<close>

definition exampleHints :: "TimelineEntry list" where
  "exampleHints =
     [\<lparr>entryId = js ''line-0'', scriptLineId = js ''line-0'',
        startTime = Finite 0 0, endTime = Finite 2 0,
        entryText = js ''A'', entryImage = js ''a''\<rparr>,
      \<lparr>entryId = js ''line-1'', scriptLineId = js ''line-1'',
        startTime = Finite 0 0, endTime = Finite 0 0,
        entryText = js ''B'', entryImage = js ''b''\<rparr>,
      \<lparr>entryId = js ''line-2'', scriptLineId = js ''line-2'',
        startTime = Finite 1 0, endTime = Finite 3 0,
        entryText = js ''C'', entryImage = js ''c''\<rparr>]"

text \<open>Hints for two lines: the first at 0 to 1.1 seconds, none for the second. The
  double written \<^verbatim>\<open>1.1\<close> is \<open>4953959590107546 * 2 ^ - 52\<close>.\<close>

definition shiftedHints :: "TimelineEntry list" where
  "shiftedHints =
     [\<lparr>entryId = js ''line-0'', scriptLineId = js ''line-0'',
        startTime = Finite 0 0, endTime = Finite 4953959590107546 (- 52),
        entryText = js ''A'', entryImage = js ''a''\<rparr>,
      \<lparr>entryId = js ''line-1'', scriptLineId = js ''line-1'',
        startTime = Finite 0 0, endTime = Finite 0 0,
        entryText = js ''B'', entryImage = js ''b''\<rparr>]"

text \<open>A script of two records around a blank line; the second has white space at both
  ends and no delimiter.\<close>

definition exampleScript :: jsString where
  "exampleScript = js ''Hello world|a dog'' @ [newline, newline] @ js '' hi '' @ [newline]"

text \<open>Three pending lines, a session with a given budget, and two generators: one whose
  calls for the first line all fail with an empty message, one that serves the first line
  and signals quota exhaustion from the second on.\<close>

definition exampleLines :: jsString where
  "exampleLines = js ''one'' @ [newline] @ js ''two'' @ [newline] @ js ''three''"

definition exampleSession :: "int \<Rightarrow> ApiKeySession" where
  "exampleSession budget =
     \<lparr>key = js ''k'', limit = budget, used = 0, isValid = True, sessionBatchId = 1\<rparr>"

text \<open>The records that the parser makes of \<open>exampleLines\<close>.\<close>

definition exampleLine :: "nat \<Rightarrow> jsString \<Rightarrow> ScriptLine" where
  "exampleLine idx t =
     \<lparr>lineId = js ''line-'' @ showNat idx, originalText = t, spokenText = t,
      imagePrompt = [], status = Pending, imageData = None, imageFileName = None,
      batchId = None, timestamp = None, error = None\<rparr>"

definition exampleState :: AppState where
  "exampleState =
     \<lparr>stage = IMAGE_GENERATION, errorMsg = None, logs = [], apiKeySession = None,
      tempKey = js ''k'', showKeyModal = False, keyModalMessage = MsgEnterValidKey,
      scriptLines = [exampleLine 0 (js ''one''), exampleLine 1 (js ''two''),
                     exampleLine 2 (js ''three'')],
      isProcessingBatch = False, currentSession = exampleSession 0, trace = []\<rparr>"

text \<open>The state in which \<^verbatim>\<open>handleKeySubmit\<close> starts a run with the key \<^verbatim>\<open>k\<close> and a
  budget of 5: the session it made from the key field is stored and the dialog is
  closed.\<close>

definition keyAcceptedState :: AppState where
  "keyAcceptedState = exampleState\<lparr>apiKeySession := Some (exampleSession 5)\<rparr>"

definition failingFirstLine :: generator where
  "failingFirstLine i k = (if i = 0 then OtherError [] else Image (js ''img''))"

definition quotaOnSecondLine :: generator where
  "quotaOnSecondLine i k = (if i = 0 then Image (js ''img'') else QuotaError (js ''quota''))"

text \<open>A generator that signals quota exhaustion at once.\<close>

definition quotaAtOnce :: generator where
  "quotaAtOnce i k = QuotaError (js ''quota'')"

text \<open>The lines after a first run that was stopped by quota exhaustion on the second
  line: the first line is completed.\<close>

definition resumedState :: AppState where
  "resumedState =
     exampleState
       \<lparr>scriptLines :=
          [(exampleLine 0 (js ''one''))
             \<lparr>imageData := Some (js ''img''), imageFileName := Some (js ''one.png''),
              status := Completed, batchId := Some 1,
              timestamp := Some (js ''2024-01-01T00:00:00.000Z'')\<rparr>,
           exampleLine 1 (js ''two''), exampleLine 2 (js ''three'')]\<rparr>"

section \<open>Filenames and parser: proofs\<close>

subsection \<open>Filenames\<close>

lemma toLowerCase_ascii:
  "list_all (\<lambda>c. c < 0x80) s \<Longrightarrow> toLowerCase host s = map asciiLowerCase s"
  by (simp add: toLowerCase_def)

lemma length_sanitizeFilename:
  "length (sanitizeFilename host t) = min 50 (length (toLowerCase host t))"
  by (simp add: sanitizeFilename_def min.commute)

lemma nth_sanitizeFilename:
  "i < min 50 (length (toLowerCase host t)) \<Longrightarrow>
     sanitizeFilename host t ! i =
       (if isLowerAlnum (toLowerCase host t ! i) then toLowerCase host t ! i else underscore)"
  by (simp add: sanitizeFilename_def)

lemma sanitizeFilename_chars:
  "c \<in> set (sanitizeFilename host t) \<Longrightarrow> isLowerAlnum c \<or> c = underscore"
  by (auto simp: sanitizeFilename_def dest!: in_set_takeD)

lemma sanitizeFilename_hello:
  "imageFileNameOf host (js ''Hello world'') = js ''hello_world.png''"
proof -
  have a: "list_all (\<lambda>c. c < 0x80) (js ''Hello world'')" by code_simp
  have "map (\<lambda>c. if isLowerAlnum c then c else underscore) (map asciiLowerCase (js ''Hello world''))
          = js ''hello_world''"
    by code_simp
  moreover have "take 50 (js ''hello_world'') @ js ''.png'' = js ''hello_world.png''"
    by code_simp
  ultimately show ?thesis
    unfolding imageFileNameOf_def sanitizeFilename_def toLowerCase_ascii [OF a] by simp
qed

text \<open>
  Two consecutive characters outside the class give two separators, where collapsing the
  run would give one.
\<close>

theorem derived_filename_runs_not_collapsed:
  "imageFileNameOf exampleHost (js ''a, b'') = js ''a__b.png''
   \<and> specFilename exampleHost (js ''a, b'') = js ''a_b.png''"
  by code_simp

text \<open>
  Claim C7, as the code has it. The derived filename is the narration text as the host's
  \<^verbatim>\<open>toLowerCase\<close> returns it, which need not have the length of the narration, with
  each UTF-16 code unit outside \<^verbatim>\<open>[a-z0-9]\<close> replaced by one underscore (a run of such
  code units gives as many underscores, and a character of two code units gives two), cut
  to 50 code units, followed by \<^verbatim>\<open>.png\<close>; on every host \<^verbatim>\<open>Hello world\<close> gives
  \<^verbatim>\<open>hello_world.png\<close>.
\<close>

theorem derived_filename:
  "imageFileNameOf host t = sanitizeFilename host t @ js ''.png''
   \<and> length (sanitizeFilename host t) = min 50 (length (toLowerCase host t))
   \<and> (\<forall>i < min 50 (length (toLowerCase host t)).
         sanitizeFilename host t ! i =
           (if isLowerAlnum (toLowerCase host t ! i) then toLowerCase host t ! i else underscore))
   \<and> imageFileNameOf host (js ''Hello world'') = js ''hello_world.png''"
  by (simp add: imageFileNameOf_def length_sanitizeFilename nth_sanitizeFilename
        sanitizeFilename_hello [unfolded imageFileNameOf_def])

text \<open>The narration of 11 code units that starts with U+0130 has a lower-case form of
  12, and the combining mark that \<^verbatim>\<open>toLowerCase\<close> adds becomes an underscore.\<close>

theorem derived_filename_witness:
  "length exampleNarration = 11
   \<and> toLowerCase exampleHost exampleNarration = js ''i'' @ [0x0307] @ js ''stanbul 5k''
   \<and> (1::nat) < min 50 (length (toLowerCase exampleHost exampleNarration))
   \<and> sanitizeFilename exampleHost exampleNarration ! 1 = underscore
   \<and> length (sanitizeFilename exampleHost exampleNarration) = 12
   \<and> imageFileNameOf exampleHost exampleNarration = js ''i_stanbul_5k.png''"
proof -
  have l: "toLowerCase exampleHost exampleNarration = js ''i'' @ [0x0307] @ js ''stanbul 5k''"
    by code_simp
  have n: "length exampleNarration = 11" "length (js ''i'' @ [0x0307 :: codeUnit] @ js ''stanbul 5k'') = 12"
    by code_simp+
  have i: "(1::nat) < min 50 (length (toLowerCase exampleHost exampleNarration))"
    unfolding l n by simp
  have b: "\<not> isLowerAlnum (toLowerCase exampleHost exampleNarration ! 1)"
    unfolding l by code_simp
  have c: "imageFileNameOf exampleHost exampleNarration = js ''i_stanbul_5k.png''"
    by code_simp
  from derived_filename [of exampleHost exampleNarration] i b c l n show ?thesis
    by simp
qed

subsection \<open>Parser\<close>

lemma indexOf_None: "indexOf c s = None \<longleftrightarrow> c \<notin> set s"
  by (induction s) auto

lemma indexOf_append: "c \<notin> set A \<Longrightarrow> indexOf c (A @ c # B) = Some (length A)"
  by (induction A) auto

lemma length_mapIdx: "length (mapIdx f i xs) = length xs"
  by (induction xs arbitrary: i) auto

lemma nth_mapIdx: "j < length xs \<Longrightarrow> mapIdx f i xs ! j = f (i + j) (xs ! j)"
  by (induction xs arbitrary: i j) (auto simp: nth_Cons split: nat.splits)

lemma map_originalText_mapIdx: "map originalText (mapIdx parseLine i xs) = xs"
  by (induction xs arbitrary: i) (auto simp: parseLine_def split: option.splits)

lemma parseLine_no_delimiter:
  "pipe \<notin> set l \<Longrightarrow> spokenText (parseLine idx l) = trim l \<and> imagePrompt (parseLine idx l) = []"
  using indexOf_None [of pipe l] by (simp add: parseLine_def)

lemma parseLine_delimiter:
  "pipe \<notin> set A \<Longrightarrow>
     spokenText (parseLine idx (A @ [pipe] @ B)) = trim A
     \<and> imagePrompt (parseLine idx (A @ [pipe] @ B)) = trim B"
  using indexOf_append [of pipe A B] by (simp add: parseLine_def)

lemma parseLine_fresh:
  "status (parseLine idx l) = Pending \<and> originalText (parseLine idx l) = l
   \<and> lineId (parseLine idx l) = js ''line-'' @ showNat idx"
  by (simp add: parseLine_def split: option.splits)

text \<open>
  A non-blank line without delimiter whose narration is not the full text of the line.
\<close>

theorem parser_narration_is_trimmed:
  "pipe \<notin> set (js '' hi '') \<and> nonBlank (js '' hi '')
   \<and> map originalText (parseScript (js '' hi '')) = [js '' hi '']
   \<and> map spokenText (parseScript (js '' hi '')) = [js ''hi'']"
  by code_simp

text \<open>
  Claim C8, as the code has it. The parser yields one record per non-blank input line, in
  the order of the input, each holding its line unchanged as the original text. For a
  line without \<^verbatim>\<open>|\<close> the narration is the line with the white space at both ends
  removed and the prompt is empty; for a line \<^verbatim>\<open>A|B\<close>, split at the first
  \<^verbatim>\<open>|\<close>, the narration is \<open>A\<close> and the prompt is \<open>B\<close>, each trimmed in the same way.
  Every record starts as pending, with an identifier made from its position.
\<close>

theorem parser_records:
  "length (parseScript t) = length (filter nonBlank (splitOn newline t))
   \<and> map originalText (parseScript t) = filter nonBlank (splitOn newline t)
   \<and> (\<forall>i < length (parseScript t).
        (pipe \<notin> set (originalText (parseScript t ! i)) \<longrightarrow>
           spokenText (parseScript t ! i) = trim (originalText (parseScript t ! i))
           \<and> imagePrompt (parseScript t ! i) = [])
        \<and> (\<forall>A B. originalText (parseScript t ! i) = A @ [pipe] @ B \<and> pipe \<notin> set A \<longrightarrow>
              spokenText (parseScript t ! i) = trim A \<and> imagePrompt (parseScript t ! i) = trim B)
        \<and> status (parseScript t ! i) = Pending
        \<and> lineId (parseScript t ! i) = js ''line-'' @ showNat i)"
proof -
  let ?ls = "filter nonBlank (splitOn newline t)"
  have len: "length (parseScript t) = length ?ls"
    by (simp add: parseScript_def scriptInputLines_def length_mapIdx)
  have orig: "map originalText (parseScript t) = ?ls"
    by (simp add: parseScript_def scriptInputLines_def map_originalText_mapIdx)
  have nth: "parseScript t ! i = parseLine i (?ls ! i)" if "i < length (parseScript t)" for i
    using that len by (simp add: parseScript_def scriptInputLines_def nth_mapIdx)
  show ?thesis
    using len orig
    by (auto simp: nth parseLine_fresh parseLine_no_delimiter
             dest: parseLine_delimiter [where B = "_"])
qed

theorem parser_records_witness:
  "(1::nat) < length (parseScript exampleScript)
   \<and> pipe \<notin> set (originalText (parseScript exampleScript ! 1))
   \<and> originalText (parseScript exampleScript ! 0) = js ''Hello world'' @ [pipe] @ js ''a dog''
   \<and> pipe \<notin> set (js ''Hello world'')
   \<and> map originalText (parseScript exampleScript) = [js ''Hello world|a dog'', js '' hi '']
   \<and> spokenText (parseScript exampleScript ! 1) = js ''hi''
   \<and> imagePrompt (parseScript exampleScript ! 1) = []
   \<and> spokenText (parseScript exampleScript ! 0) = js ''Hello world''
   \<and> imagePrompt (parseScript exampleScript ! 0) = js ''a dog''"
proof -
  have o: "map originalText (parseScript exampleScript) = [js ''Hello world|a dog'', js '' hi '']"
    by code_simp
  have len: "length (parseScript exampleScript) = 2"
    using arg_cong [OF o, of length] by simp
  have s: "js ''Hello world|a dog'' = js ''Hello world'' @ [pipe] @ js ''a dog''"
    by code_simp
  have o0: "originalText (parseScript exampleScript ! 0) = js ''Hello world'' @ [pipe] @ js ''a dog''"
    using arg_cong [OF o, of "\<lambda>xs. xs ! 0"] len s by simp
  have o1: "originalText (parseScript exampleScript ! 1) = js '' hi ''"
    using arg_cong [OF o, of "\<lambda>xs. xs ! 1"] len by simp
  have t: "trim (js '' hi '') = js ''hi''" "trim (js ''Hello world'') = js ''Hello world''"
    "trim (js ''a dog'') = js ''a dog''"
    by code_simp+
  have p: "pipe \<notin> set (js ''Hello world'')" "pipe \<notin> set (js '' hi '')"
    by code_simp+
  have l1: "(1::nat) < length (parseScript exampleScript)" and l0: "(0::nat) < length (parseScript exampleScript)"
    using len by simp_all
  from parser_records [of exampleScript]
  have a: "\<And>i A B. i < length (parseScript exampleScript) \<Longrightarrow>
             originalText (parseScript exampleScript ! i) = A @ [pipe] @ B \<Longrightarrow> pipe \<notin> set A \<Longrightarrow>
             spokenText (parseScript exampleScript ! i) = trim A
             \<and> imagePrompt (parseScript exampleScript ! i) = trim B"
    and b: "\<And>i. i < length (parseScript exampleScript) \<Longrightarrow>
             pipe \<notin> set (originalText (parseScript exampleScript ! i)) \<Longrightarrow>
             spokenText (parseScript exampleScript ! i) = trim (originalText (parseScript exampleScript ! i))
             \<and> imagePrompt (parseScript exampleScript ! i) = []"
    by blast+
  from a [OF l0 o0 p(1)] b [OF l1] o s o0 o1 t p l1 show ?thesis
    by simp
qed

text \<open>The lines of the example state are what the parser makes of \<open>exampleLines\<close>.\<close>

lemma exampleLines_parsed: "parseScript exampleLines = scriptLines exampleState"
  by code_simp

section \<open>Numbers of the host language: proofs\<close>

subsection \<open>Rounding to the nearest integer\<close>

lemma rhe_0 [simp]: "roundHalfEven m 0 = m"
  by (simp add: roundHalfEven_def)

lemma rhe_scale: "roundHalfEven (m * 2 ^ j) (k + j) = roundHalfEven m k"
proof -
  have d: "(2::int) ^ (k + j) = 2 ^ k * 2 ^ j" by (simp add: power_add)
  have "(m * 2 ^ j) div (2 ^ k * 2 ^ j) = m div 2 ^ k" by simp
  moreover have "(m * 2 ^ j) mod (2 ^ k * 2 ^ j :: int) = (m mod 2 ^ k) * 2 ^ j"
    by simp
  ultimately show ?thesis
    unfolding roundHalfEven_def d Let_def
    by simp
qed


lemma rhe_mono: "a \<le> b \<Longrightarrow> roundHalfEven a k \<le> roundHalfEven b k"
proof -
  assume ab: "a \<le> b"
  let ?d = "(2::int) ^ k"
  have d: "0 < ?d" by simp
  have q: "a div ?d \<le> b div ?d" using ab by (simp add: zdiv_mono1)
  have ra: "0 \<le> a mod ?d" "a mod ?d < ?d" and rb: "0 \<le> b mod ?d" "b mod ?d < ?d"
    by simp_all
  show ?thesis
  proof (cases "a div ?d = b div ?d")
    case True
    have "a = ?d * (a div ?d) + a mod ?d" "b = ?d * (b div ?d) + b mod ?d" by simp_all
    with ab True have "a mod ?d \<le> b mod ?d" by (metis add_le_cancel_left)
    with True show ?thesis
      unfolding roundHalfEven_def Let_def by auto
  next
    case False
    with q have "a div ?d + 1 \<le> b div ?d" by simp
    moreover have "roundHalfEven a k \<le> a div ?d + 1"
      unfolding roundHalfEven_def Let_def by auto
    moreover have "b div ?d \<le> roundHalfEven b k"
      unfolding roundHalfEven_def Let_def by auto
    ultimately show ?thesis by linarith
  qed
qed

lemma rhe_grid [simp]: "roundHalfEven (g * 2 ^ k) k = g"
  using rhe_scale [of g k 0] by simp

lemma rhe_le_grid: "m \<le> g * 2 ^ k \<Longrightarrow> roundHalfEven m k \<le> g"
  using rhe_mono [of m "g * 2 ^ k" k] by simp

lemma rhe_ge_grid: "g * 2 ^ k \<le> m \<Longrightarrow> g \<le> roundHalfEven m k"
  using rhe_mono [of "g * 2 ^ k" m k] by simp

lemma rhe_nonneg: "0 \<le> m \<Longrightarrow> 0 \<le> roundHalfEven m k"
  using rhe_ge_grid [of 0 k m] by simp

lemma rhe_small: "0 \<le> m \<Longrightarrow> 2 * m < 2 ^ k \<Longrightarrow> roundHalfEven m k = 0"
proof -
  assume m: "0 \<le> m" "2 * m < 2 ^ k"
  then have "m < 2 ^ k" by linarith
  with m have "m div 2 ^ k = 0" "m mod 2 ^ k = m" by simp_all
  with m show ?thesis unfolding roundHalfEven_def Let_def by simp
qed

subsection \<open>Rounding does not depend on how the exact value is written\<close>

lemma rtd_rebase:
  assumes "b \<le> e"
  shows "roundToDouble (m * 2 ^ nat (e - b)) b = roundToDouble m e"
proof (cases "m = 0")
  case True
  then show ?thesis by (simp add: roundToDouble_def)
next
  case False
  let ?j = "nat (e - b)"
  let ?M = "m * 2 ^ ?j"
  have M0: "?M \<noteq> 0" using False by simp
  have abs: "\<bar>?M\<bar> = \<bar>m\<bar> * 2 ^ ?j" by (simp add: abs_mult)
  have bl: "bitlen \<bar>?M\<bar> + b = bitlen \<bar>m\<bar> + e"
    unfolding abs using False assms by simp
  define p where "p = max (bitlen \<bar>m\<bar> + e - 53) (- 1074)"
  have p': "max (bitlen \<bar>?M\<bar> + b - 53) (- 1074) = p"
    unfolding p_def using bl by simp
  have n: "roundHalfEven (?M * 2 ^ nat (b - min b p)) (nat (p - min b p))
      = roundHalfEven (m * 2 ^ nat (e - min e p)) (nat (p - min e p))"
  proof (cases "p \<le> b")
    case True
    with assms have "min b p = p" "min e p = p" by simp_all
    moreover from True assms have "(2::int) ^ ?j * 2 ^ nat (b - p) = 2 ^ nat (e - p)"
      by (simp add: power_add [symmetric] nat_add_distrib [symmetric])
    ultimately show ?thesis by (simp add: mult.assoc)
  next
    case False
    then have bp: "min b p = b" by simp
    show ?thesis
    proof (cases "p \<le> e")
      case True
      then have ep: "min e p = p" by simp
      from False True have "nat (e - b) = nat (e - p) + nat (p - b)"
        by simp
      then have M: "?M = (m * 2 ^ nat (e - p)) * 2 ^ nat (p - b)"
        by (simp add: power_add mult.assoc)
      have "roundHalfEven ?M (nat (p - b)) = m * 2 ^ nat (e - p)"
        unfolding M by (rule rhe_grid)
      then show ?thesis unfolding bp ep by simp
    next
      case False
      then have ep: "min e p = e" by simp
      from False assms have "nat (p - b) = nat (p - e) + nat (e - b)" by simp
      then show ?thesis unfolding bp ep using rhe_scale [of m ?j "nat (p - e)"] by simp
    qed
  qed
  have sg: "0 < ?M \<longleftrightarrow> 0 < m" by (simp add: zero_less_mult_iff)
  show ?thesis
    unfolding roundToDouble_def Let_def p' p_def [symmetric] n
    using M0 False sg by simp
qed


subsection \<open>Sign and monotonicity of rounding\<close>

lemma bitlen_mono: "a \<le> b \<Longrightarrow> bitlen a \<le> bitlen b"
  unfolding bitlen_def by (simp add: floorlog_mono nat_mono)

lemma rtd_nonneg: "0 \<le> m \<Longrightarrow> dle (Finite 0 0) (roundToDouble m e)"
  by (simp add: roundToDouble_def Let_def rhe_nonneg zero_le_mult_iff)

lemma rtd_mono:
  assumes a: "0 < a" and ab: "a \<le> b"
  shows "dle (roundToDouble a e) (roundToDouble b e)"
proof -
  have b: "0 < b" using a ab by simp
  define La where "La = bitlen a"
  define Lb where "Lb = bitlen b"
  define pa where "pa = max (La + e - 53) (- 1074)"
  define pb where "pb = max (Lb + e - 53) (- 1074)"
  define c where "c = min e pa"
  define c' where "c' = min e pb"
  define A where "A = a * 2 ^ nat (e - c)"
  define B where "B = b * 2 ^ nat (e - c)"
  define ka where "ka = nat (pa - c)"
  define kb where "kb = nat (pb - c)"
  define na where "na = roundHalfEven A ka"
  define nb where "nb = roundHalfEven B kb"
  have L: "La \<le> Lb" unfolding La_def Lb_def using ab by (rule bitlen_mono)
  have L1: "1 \<le> La" "1 \<le> Lb"
    using a b bitlen_eq_zero_iff [of a] bitlen_eq_zero_iff [of b] bitlen_nonneg [of a]
      bitlen_nonneg [of b]
    unfolding La_def Lb_def by linarith+
  have p: "pa \<le> pb" unfolding pa_def pb_def using L by simp
  have c: "c \<le> e" "c \<le> pa" "c \<le> pb" "c \<le> c'" "c' \<le> e" "c' \<le> pb"
    unfolding c_def c'_def using p by simp_all
  have k: "ka \<le> kb" "int ka = pa - c" "int kb = pb - c"
    unfolding ka_def kb_def using c p by simp_all
  have AB: "0 < A" "A \<le> B"
    unfolding A_def B_def using a ab by simp_all
  have nb': "roundHalfEven (b * 2 ^ nat (e - c')) (nat (pb - c')) = nb"
  proof -
    have "nat (e - c) = nat (e - c') + nat (c' - c)" using c by simp
    then have "B = (b * 2 ^ nat (e - c')) * 2 ^ nat (c' - c)"
      unfolding B_def by (simp add: power_add mult.assoc)
    moreover have "kb = nat (pb - c') + nat (c' - c)"
      unfolding kb_def using c by simp
    ultimately show ?thesis unfolding nb_def by (simp only: rhe_scale)
  qed
  have n0: "0 \<le> na" "0 \<le> nb"
    unfolding na_def nb_def using AB by (simp_all add: rhe_nonneg)
  have ra: "roundToDouble a e = (if bitlen na + pa > 1024 then PosInfinity else Finite na pa)"
    using a n0
    by (simp add: roundToDouble_def Let_def La_def [symmetric] pa_def [symmetric]
          c_def [symmetric] A_def [symmetric] ka_def [symmetric] na_def [symmetric])
  have rb: "roundToDouble b e = (if bitlen nb + pb > 1024 then PosInfinity else Finite nb pb)"
    using b n0 nb'
    by (simp add: roundToDouble_def Let_def Lb_def [symmetric] pb_def [symmetric]
          c'_def [symmetric])
  have cmp: "na * 2 ^ ka \<le> nb * 2 ^ kb"
  proof (cases "pa = pb")
    case True
    then have "ka = kb" unfolding ka_def kb_def by simp
    moreover have "roundHalfEven A kb \<le> roundHalfEven B kb"
      using AB(2) by (rule rhe_mono)
    ultimately show ?thesis unfolding na_def nb_def by simp
  next
    case False
    with p have lt: "pa < pb" by simp
    then have pbe: "pb = Lb + e - 53" unfolding pa_def pb_def by linarith
    from lt have LL: "La \<le> Lb - 1" unfolding pa_def pbe by linarith
    have ex: "nat (Lb - 1) + nat (e - c) = 52 + kb"
      unfolding kb_def pbe using L1 c pbe by linarith
    have "2 ^ nat (Lb - 1) \<le> b"
      using bitlen_bounds [OF b] unfolding Lb_def by simp
    then have "2 ^ nat (Lb - 1) * 2 ^ nat (e - c) \<le> B"
      unfolding B_def by simp
    then have "2 ^ 52 * 2 ^ kb \<le> B"
      unfolding power_add [symmetric] ex .
    then have nb52: "2 ^ 52 \<le> nb"
      unfolding nb_def by (rule rhe_ge_grid)
    have "a < 2 ^ nat La"
      using bitlen_bounds [OF a] unfolding La_def by simp
    then have "A < 2 ^ nat La * 2 ^ nat (e - c)"
      unfolding A_def by simp
    also have "\<dots> = 2 ^ (nat La + nat (e - c))" by (simp add: power_add)
    also have "\<dots> \<le> 2 ^ (52 + kb)"
      by (rule power_increasing) (use LL ex L1 in linarith, simp)
    finally have "A \<le> 2 ^ (52 + kb)" by simp
    moreover have "52 + kb = (52 + (kb - ka)) + ka" using k(1) by simp
    ultimately have "A \<le> 2 ^ (52 + (kb - ka)) * 2 ^ ka"
      by (simp only: power_add [symmetric])
    then have "na \<le> 2 ^ (52 + (kb - ka))"
      unfolding na_def by (rule rhe_le_grid)
    then have "na * 2 ^ ka \<le> 2 ^ (52 + (kb - ka)) * 2 ^ ka" by simp
    also have "\<dots> = 2 ^ 52 * 2 ^ kb"
      using k(1) by (simp only: power_add [symmetric] add.assoc le_add_diff_inverse2)
    also have "\<dots> \<le> nb * 2 ^ kb" using nb52 by simp
    finally show ?thesis .
  qed
  have ovf: "bitlen nb + pb > 1024" if o: "bitlen na + pa > 1024"
  proof (cases "na = 0")
    case True
    with o have "pa > 1024" by simp
    with p bitlen_nonneg [of nb] show ?thesis by linarith
  next
    case False
    with n0 have na: "0 < na" by simp
    then have "0 < na * 2 ^ ka" by simp
    with cmp have "0 < nb * 2 ^ kb" by linarith
    then have nb: "0 < nb" by (simp add: zero_less_mult_iff)
    have "bitlen (na * 2 ^ ka) \<le> bitlen (nb * 2 ^ kb)" using cmp by (rule bitlen_mono)
    then have "bitlen na + int ka \<le> bitlen nb + int kb"
      using na nb by simp
    with o k show ?thesis by linarith
  qed
  show ?thesis
  proof (cases "bitlen nb + pb > 1024")
    case True
    then show ?thesis unfolding ra rb by simp
  next
    case False
    with ovf have oa: "\<not> bitlen na + pa > 1024" by blast
    have "kb = (kb - ka) + ka" using k(1) by simp
    then have "nb * 2 ^ kb = (nb * 2 ^ (kb - ka)) * 2 ^ ka"
      by (metis power_add mult.assoc)
    with cmp have "na \<le> nb * 2 ^ (kb - ka)" by simp
    moreover have "kb - ka = nat (pb - pa)" unfolding ka_def kb_def using c p by simp
    ultimately show ?thesis unfolding ra rb using False oa p
      by (simp add: Let_def min_def)
  qed
qed

subsection \<open>Order on doubles\<close>

lemma pow2_sign:
  fixes m :: int
  shows "0 \<le> m * 2 ^ k \<longleftrightarrow> 0 \<le> m" "0 < m * 2 ^ k \<longleftrightarrow> 0 < m"
    "m * 2 ^ k \<le> 0 \<longleftrightarrow> m \<le> 0" "m * 2 ^ k < 0 \<longleftrightarrow> m < 0"
  by (simp_all add: zero_le_mult_iff zero_less_mult_iff mult_le_0_iff mult_less_0_iff)

lemma rtd_not_NaN [simp]: "roundToDouble m e \<noteq> NaN"
  by (simp add: roundToDouble_def Let_def)

lemma dadd_Finite_not_NaN: "s \<noteq> NaN \<Longrightarrow> dadd s (Finite m e) \<noteq> NaN"
  by (cases s) (simp_all add: Let_def)

lemma dle_refl: "x \<noteq> NaN \<Longrightarrow> dle x x"
  by (cases x) simp_all

lemma not_dlt_dle: "x \<noteq> NaN \<Longrightarrow> y \<noteq> NaN \<Longrightarrow> \<not> dlt x y \<Longrightarrow> dle y x"
  by (cases x; cases y) (simp_all add: Let_def min.commute)

lemma not_dle_dle: "x \<noteq> NaN \<Longrightarrow> y \<noteq> NaN \<Longrightarrow> \<not> dle x y \<Longrightarrow> dle y x"
  by (cases x; cases y) (simp_all add: Let_def min.commute)

lemma dle_zero_iff: "dle (Finite 0 0) x \<longleftrightarrow> (x = PosInfinity \<or> (\<exists>m e. x = Finite m e \<and> 0 \<le> m))"
  by (cases x) (simp_all add: Let_def pow2_sign)

lemma dle_zero_trans: "dle (Finite 0 0) y \<Longrightarrow> dle y x \<Longrightarrow> dle (Finite 0 0) x"
proof (cases y; cases x)
  fix m e n p
  assume y: "y = Finite m e" and x: "x = Finite n p" and 0: "dle (Finite 0 0) y" and le: "dle y x"
  from 0 y have "0 \<le> m" by (simp add: Let_def pow2_sign)
  then have "0 \<le> m * 2 ^ nat (e - min e p)" by simp
  with le x y have "0 \<le> n * 2 ^ nat (p - min e p)" by (simp add: Let_def)
  then have "0 \<le> n" by (simp add: pow2_sign)
  with x show ?thesis by (simp add: Let_def pow2_sign)
qed simp_all

lemma dlt_zero_dle: "dlt (Finite 0 e) x \<Longrightarrow> dle (Finite 0 0) x"
  by (cases x) (simp_all add: Let_def pow2_sign)

lemma deq_zero_dle: "deq x (Finite 0 0) \<Longrightarrow> dle (Finite 0 0) y \<Longrightarrow> dle x y"
  by (cases x; cases y) (simp_all add: Let_def pow2_sign)

lemma deq_zero_not_dlt: "deq x (Finite 0 0) \<Longrightarrow> \<not> dlt x y \<Longrightarrow> y \<noteq> NaN \<Longrightarrow> dle y (Finite 0 0)"
  by (cases x; cases y) (simp_all add: Let_def pow2_sign not_less)

subsection \<open>Sums with a positive constant\<close>

lemma dadd_Finite_rebase:
  assumes "g \<le> e1" "g \<le> e2"
  shows "dadd (Finite m1 e1) (Finite m2 e2)
           = roundToDouble (m1 * 2 ^ nat (e1 - g) + m2 * 2 ^ nat (e2 - g)) g"
proof -
  define e where "e = min e1 e2"
  have g: "g \<le> e" "e \<le> e1" "e \<le> e2" unfolding e_def using assms by simp_all
  have 1: "nat (e1 - g) = nat (e1 - e) + nat (e - g)" and 2: "nat (e2 - g) = nat (e2 - e) + nat (e - g)"
    using g by simp_all
  have "m1 * 2 ^ nat (e1 - g) + m2 * 2 ^ nat (e2 - g)
          = (m1 * 2 ^ nat (e1 - e) + m2 * 2 ^ nat (e2 - e)) * 2 ^ nat (e - g)"
    unfolding 1 2 by (simp add: power_add algebra_simps)
  then show ?thesis
    using rtd_rebase [OF g(1), of "m1 * 2 ^ nat (e1 - e) + m2 * 2 ^ nat (e2 - e)"]
    by (simp add: Let_def e_def)
qed

lemma dadd_nonneg:
  assumes "dle (Finite 0 0) s" "0 \<le> m"
  shows "dle (Finite 0 0) (dadd s (Finite m e))"
proof (cases s)
  case (Finite ms es)
  with assms have "0 \<le> ms" by (simp add: Let_def pow2_sign)
  with assms(2) have "0 \<le> ms * 2 ^ nat (es - min es e) + m * 2 ^ nat (e - min es e)" by simp
  then show ?thesis unfolding Finite by (simp add: Let_def rtd_nonneg)
qed (use assms in simp_all)

lemma dadd_mono:
  assumes s: "dle (Finite 0 0) s" and m1: "0 < m1"
    and le: "dle (Finite m1 e1) (Finite m2 e2)"
  shows "dle (dadd s (Finite m1 e1)) (dadd s (Finite m2 e2))"
proof (cases s)
  case (Finite ms es)
  with s have ms: "0 \<le> ms" by (simp add: Let_def pow2_sign)
  define g where "g = min es (min e1 e2)"
  have g: "g \<le> es" "g \<le> e1" "g \<le> e2" "g \<le> min e1 e2" unfolding g_def by linarith+
  have 1: "nat (e1 - g) = nat (e1 - min e1 e2) + nat (min e1 e2 - g)"
    and 2: "nat (e2 - g) = nat (e2 - min e1 e2) + nat (min e1 e2 - g)"
    using g by simp_all
  from le have "m1 * 2 ^ nat (e1 - min e1 e2) \<le> m2 * 2 ^ nat (e2 - min e1 e2)"
    by (simp add: Let_def)
  then have "m1 * 2 ^ nat (e1 - min e1 e2) * 2 ^ nat (min e1 e2 - g)
               \<le> m2 * 2 ^ nat (e2 - min e1 e2) * 2 ^ nat (min e1 e2 - g)"
    by simp
  then have c: "m1 * 2 ^ nat (e1 - g) \<le> m2 * 2 ^ nat (e2 - g)"
    unfolding 1 2 by (simp add: power_add mult.assoc)
  have p: "0 < m1 * 2 ^ nat (e1 - g)" using m1 by simp
  have "0 \<le> ms * 2 ^ nat (es - g)" using ms by simp
  with p have a: "0 < ms * 2 ^ nat (es - g) + m1 * 2 ^ nat (e1 - g)" by linarith
  from c have b: "ms * 2 ^ nat (es - g) + m1 * 2 ^ nat (e1 - g)
                    \<le> ms * 2 ^ nat (es - g) + m2 * 2 ^ nat (e2 - g)" by simp
  show ?thesis
    unfolding Finite dadd_Finite_rebase [OF g(1) g(2)] dadd_Finite_rebase [OF g(1) g(3)]
    using a b by (rule rtd_mono)
qed (use s in simp_all)

lemma min_le_fallback: "dle MIN_IMAGE_DURATION fallbackDurationPerSlide"
  by (simp add: MIN_IMAGE_DURATION_def fallbackDurationPerSlide_def Let_def)

lemma dadd_min_le_fallback:
  "dle (Finite 0 0) s \<Longrightarrow> dle (dadd s MIN_IMAGE_DURATION) (dadd s fallbackDurationPerSlide)"
  using min_le_fallback unfolding MIN_IMAGE_DURATION_def fallbackDurationPerSlide_def
  by (intro dadd_mono) simp_all

lemma dadd_min_nonneg: "dle (Finite 0 0) s \<Longrightarrow> dle (Finite 0 0) (dadd s MIN_IMAGE_DURATION)"
  unfolding MIN_IMAGE_DURATION_def by (rule dadd_nonneg) simp_all

lemma dadd_fallback_nonneg:
  "dle (Finite 0 0) s \<Longrightarrow> dle (Finite 0 0) (dadd s fallbackDurationPerSlide)"
  unfolding fallbackDurationPerSlide_def by (rule dadd_nonneg) simp_all


subsection \<open>Normalization sweep\<close>

lemma deq_zero_cases: "deq x (Finite 0 0) \<Longrightarrow> \<exists>e. x = Finite 0 e"
  by (cases x) (simp_all add: Let_def)

lemma deq_refl: "x \<noteq> NaN \<Longrightarrow> deq x x"
  by (cases x) simp_all

lemma dle_zero_not_NaN: "dle (Finite 0 0) x \<Longrightarrow> x \<noteq> NaN"
  by (cases x) simp_all

lemma zero_not_dlt_deq: "dle (Finite 0 0) y \<Longrightarrow> \<not> dlt (Finite 0 e) y \<Longrightarrow> deq (Finite 0 e) y"
  by (cases y) (simp_all add: Let_def pow2_sign)

lemma normalizeEntry_startTime:
  "startTime (normalizeEntry lastEnd t) = (if dlt (startTime t) lastEnd then lastEnd else startTime t)"
  by (simp add: normalizeEntry_def Let_def)

lemma normalizeEntry_endTime:
  "endTime (normalizeEntry lastEnd t) =
     (let s = startTime (normalizeEntry lastEnd t) in
      if dle (endTime t) (dadd s MIN_IMAGE_DURATION)
      then (if deq (endTime t) (Finite 0 0) then dadd s fallbackDurationPerSlide
            else dadd s MIN_IMAGE_DURATION)
      else endTime t)"
  by (simp add: normalizeEntry_def Let_def)

lemma normalizeEntry_start:
  "dle (Finite 0 0) lastEnd \<Longrightarrow> startTime t \<noteq> NaN \<Longrightarrow>
     dle lastEnd (startTime (normalizeEntry lastEnd t))"
  by (simp add: normalizeEntry_startTime dle_refl dle_zero_not_NaN not_dlt_dle)

lemma normalizeEntry_start_nonneg:
  "dle (Finite 0 0) lastEnd \<Longrightarrow> startTime t \<noteq> NaN \<Longrightarrow>
     dle (Finite 0 0) (startTime (normalizeEntry lastEnd t))"
  using dle_zero_trans [OF _ normalizeEntry_start] by blast

lemma normalizeEntry_duration:
  assumes "dle (Finite 0 0) lastEnd" "startTime t \<noteq> NaN" "endTime t \<noteq> NaN"
  shows "dle (dadd (startTime (normalizeEntry lastEnd t)) MIN_IMAGE_DURATION)
           (endTime (normalizeEntry lastEnd t))"
proof -
  let ?s = "startTime (normalizeEntry lastEnd t)"
  have s: "dle (Finite 0 0) ?s" using assms(1,2) by (rule normalizeEntry_start_nonneg)
  have n: "dadd ?s MIN_IMAGE_DURATION \<noteq> NaN"
    using dle_zero_not_NaN [OF dadd_min_nonneg [OF s]] .
  show ?thesis
    unfolding normalizeEntry_endTime [of lastEnd t] Let_def
    using dadd_min_le_fallback [OF s] dle_refl [OF n] not_dle_dle [OF assms(3) n]
    by auto
qed

lemma normalizeEntry_end_nonneg:
  assumes "dle (Finite 0 0) lastEnd" "startTime t \<noteq> NaN" "endTime t \<noteq> NaN"
  shows "dle (Finite 0 0) (endTime (normalizeEntry lastEnd t))"
  using dle_zero_trans [OF dadd_min_nonneg [OF normalizeEntry_start_nonneg [OF assms(1,2)]]
          normalizeEntry_duration [OF assms]] .

lemma normalizeEntry_no_hint:
  assumes "deq (startTime t) (Finite 0 0)" "deq (endTime t) (Finite 0 0)"
  shows "endTime (normalizeEntry lastEnd t)
           = dadd (startTime (normalizeEntry lastEnd t)) fallbackDurationPerSlide"
proof -
  let ?s = "startTime (normalizeEntry lastEnd t)"
  from deq_zero_cases [OF assms(1)] obtain e where e: "startTime t = Finite 0 e" by blast
  have "dle (Finite 0 0) ?s"
    unfolding normalizeEntry_startTime e using dlt_zero_dle [of e lastEnd]
    by (simp add: Let_def)
  then have "dle (Finite 0 0) (dadd ?s MIN_IMAGE_DURATION)" by (rule dadd_min_nonneg)
  with assms(2) have "dle (endTime t) (dadd ?s MIN_IMAGE_DURATION)" by (rule deq_zero_dle)
  with assms(2) show ?thesis
    unfolding normalizeEntry_endTime [of lastEnd t] Let_def by simp
qed

lemma normalizeEntry_no_hint_start:
  assumes "deq (startTime t) (Finite 0 0)" "dle (Finite 0 0) lastEnd"
  shows "deq (startTime (normalizeEntry lastEnd t)) lastEnd"
proof -
  from deq_zero_cases [OF assms(1)] obtain e where e: "startTime t = Finite 0 e" by blast
  show ?thesis
    unfolding normalizeEntry_startTime e
    using zero_not_dlt_deq [OF assms(2), of e] deq_refl [OF dle_zero_not_NaN [OF assms(2)]]
    by simp
qed

lemma normalizeEntry_keeps:
  "(normalizeEntry lastEnd t)\<lparr>startTime := Finite 0 0, endTime := Finite 0 0\<rparr>
     = t\<lparr>startTime := Finite 0 0, endTime := Finite 0 0\<rparr>"
  by (simp add: normalizeEntry_def Let_def)

lemma length_normalizeFrom: "length (normalizeFrom lastEnd ts) = length ts"
  by (induction ts arbitrary: lastEnd) simp_all

lemma normalizeFrom_keeps_entries:
  "map (\<lambda>e. e\<lparr>startTime := Finite 0 0, endTime := Finite 0 0\<rparr>) (normalizeFrom lastEnd ts)
     = map (\<lambda>e. e\<lparr>startTime := Finite 0 0, endTime := Finite 0 0\<rparr>) ts"
  by (induction ts arbitrary: lastEnd) (simp_all add: normalizeEntry_keeps)

lemma normalizeFrom_adjacent:
  "dle (Finite 0 0) lastEnd \<Longrightarrow> \<forall>t \<in> set ts. startTime t \<noteq> NaN \<and> endTime t \<noteq> NaN \<Longrightarrow>
   Suc i < length ts \<Longrightarrow>
     dle (endTime (normalizeFrom lastEnd ts ! i)) (startTime (normalizeFrom lastEnd ts ! Suc i))"
proof (induction ts arbitrary: lastEnd i)
  case Nil
  then show ?case by simp
next
  case (Cons t ts)
  have nn: "dle (Finite 0 0) (endTime (normalizeEntry lastEnd t))"
    using Cons.prems(1,2) by (simp add: normalizeEntry_end_nonneg)
  show ?case
  proof (cases i)
    case 0
    with Cons.prems obtain u us where ts: "ts = u # us" by (cases ts) auto
    with Cons.prems(2) have "startTime u \<noteq> NaN" by simp
    from normalizeEntry_start [OF nn this] 0 ts show ?thesis by simp
  next
    case (Suc j)
    with Cons.prems have "Suc j < length ts" by simp
    from Cons.IH [OF nn _ this] Cons.prems(2) Suc show ?thesis by simp
  qed
qed

lemma normalizeFrom_min_duration:
  "dle (Finite 0 0) lastEnd \<Longrightarrow> \<forall>t \<in> set ts. startTime t \<noteq> NaN \<and> endTime t \<noteq> NaN \<Longrightarrow>
   e \<in> set (normalizeFrom lastEnd ts) \<Longrightarrow>
     dle (dadd (startTime e) MIN_IMAGE_DURATION) (endTime e)"
proof (induction ts arbitrary: lastEnd)
  case Nil
  then show ?case by simp
next
  case (Cons t ts)
  have nn: "dle (Finite 0 0) (endTime (normalizeEntry lastEnd t))"
    using Cons.prems(1,2) by (simp add: normalizeEntry_end_nonneg)
  from Cons.prems(3) consider "e = normalizeEntry lastEnd t"
    | "e \<in> set (normalizeFrom (endTime (normalizeEntry lastEnd t)) ts)" by auto
  then show ?case
  proof cases
    case 1
    with Cons.prems(1,2) show ?thesis by (simp add: normalizeEntry_duration)
  next
    case 2
    from Cons.IH [OF nn _ 2] Cons.prems(2) show ?thesis by simp
  qed
qed

lemma normalizeFrom_fallback:
  "i < length ts \<Longrightarrow> deq (startTime (ts ! i)) (Finite 0 0) \<Longrightarrow> deq (endTime (ts ! i)) (Finite 0 0) \<Longrightarrow>
     endTime (normalizeFrom lastEnd ts ! i)
       = dadd (startTime (normalizeFrom lastEnd ts ! i)) fallbackDurationPerSlide"
proof (induction ts arbitrary: lastEnd i)
  case Nil
  then show ?case by simp
next
  case (Cons t ts)
  show ?case
  proof (cases i)
    case 0
    with Cons.prems show ?thesis by (simp add: normalizeEntry_no_hint)
  next
    case (Suc j)
    with Cons.prems Cons.IH [of j] show ?thesis by simp
  qed
qed

lemma normalizeFrom_fallback_start:
  "dle (Finite 0 0) lastEnd \<Longrightarrow> i < length ts \<Longrightarrow> deq (startTime (ts ! i)) (Finite 0 0) \<Longrightarrow>
   \<forall>j < i. startTime (ts ! j) \<noteq> NaN \<and> endTime (ts ! j) \<noteq> NaN \<Longrightarrow>
     deq (startTime (normalizeFrom lastEnd ts ! i))
       (if i = 0 then lastEnd else endTime (normalizeFrom lastEnd ts ! (i - 1)))"
proof (induction ts arbitrary: lastEnd i)
  case Nil
  then show ?case by simp
next
  case (Cons t ts)
  show ?case
  proof (cases i)
    case 0
    with Cons.prems show ?thesis by (simp add: normalizeEntry_no_hint_start)
  next
    case (Suc j)
    from Cons.prems(4) Suc have t: "startTime t \<noteq> NaN" "endTime t \<noteq> NaN" by auto
    have nn: "dle (Finite 0 0) (endTime (normalizeEntry lastEnd t))"
      using Cons.prems(1) t by (simp add: normalizeEntry_end_nonneg)
    from Suc Cons.prems have j: "j < length ts" "deq (startTime (ts ! j)) (Finite 0 0)"
      by simp_all
    from Cons.prems(4) Suc have "\<forall>k < j. startTime (ts ! k) \<noteq> NaN \<and> endTime (ts ! k) \<noteq> NaN"
      by auto
    from Cons.IH [OF nn j this] Suc show ?thesis
      by (cases j) simp_all
  qed
qed

section \<open>Timeline normalization: the claims\<close>

text \<open>The constant \<^verbatim>\<open>0.8\<close> is a double of 53 significant bits within half a unit in the
  last place of 8/10.\<close>

lemma MIN_IMAGE_DURATION_nearest:
  "\<bar>exactValue MIN_IMAGE_DURATION - 8 / 10\<bar> < 2 powi (- 54)
   \<and> exactValue MIN_IMAGE_DURATION = 7205759403792794 / 2 ^ 53
   \<and> (2 :: int) ^ 52 \<le> 7205759403792794 \<and> (7205759403792794 :: int) < 2 ^ 53"
  by (simp add: MIN_IMAGE_DURATION_def power_int_minus field_simps)

text \<open>
  On the hints A at 0 to 2, none for B, C at 1 to 3, the sweep places C at 5 and ends it
  at the double nearest to 5.8, which is below 5.8: C lasts less than 0.8 seconds, both
  as a real number and as the host computes the difference.
\<close>

theorem minimum_duration_rounded_away:
  "map (\<lambda>e. (exactValue (startTime e), exactValue (endTime e))) (normalizeTimeline exampleHints)
     = [(0, 2), (2, 5), (5, 6530219459687219 / 2 ^ 50)]
   \<and> exactValue (endTime (normalizeTimeline exampleHints ! 2))
       - exactValue (startTime (normalizeTimeline exampleHints ! 2)) < 8 / 10
   \<and> exactValue (dsub (endTime (normalizeTimeline exampleHints ! 2))
                   (startTime (normalizeTimeline exampleHints ! 2))) = 900719925474099 / 2 ^ 50
   \<and> dlt (dsub (endTime (normalizeTimeline exampleHints ! 2))
             (startTime (normalizeTimeline exampleHints ! 2))) MIN_IMAGE_DURATION"
  by code_simp

text \<open>
  Claim C3, as the code has it. The sweep returns as many entries as it was given, in the
  same order and unchanged but for their times. When every hint is a number (none is
  \<^verbatim>\<open>NaN\<close>), each entry starts no earlier than the one before it ends, and each entry
  ends no earlier than the sum, rounded to a double, of its start and 0.8: the minimum
  duration holds of the rounded sum that the code stores, not of the difference of end
  and start.
\<close>

theorem normalization_invariant:
  "length (normalizeTimeline ts) = length ts
   \<and> map (\<lambda>e. e\<lparr>startTime := Finite 0 0, endTime := Finite 0 0\<rparr>) (normalizeTimeline ts)
       = map (\<lambda>e. e\<lparr>startTime := Finite 0 0, endTime := Finite 0 0\<rparr>) ts
   \<and> ((\<forall>t \<in> set ts. startTime t \<noteq> NaN \<and> endTime t \<noteq> NaN) \<longrightarrow>
        (\<forall>i. Suc i < length ts \<longrightarrow>
           dle (endTime (normalizeTimeline ts ! i)) (startTime (normalizeTimeline ts ! Suc i)))
        \<and> (\<forall>e \<in> set (normalizeTimeline ts).
             dle (dadd (startTime e) MIN_IMAGE_DURATION) (endTime e)))"
  using normalizeFrom_min_duration [of "Finite 0 0" ts] normalizeFrom_adjacent [of "Finite 0 0" ts]
  by (simp add: normalizeTimeline_def length_normalizeFrom normalizeFrom_keeps_entries)

theorem normalization_invariant_witness:
  "filter (\<lambda>t. startTime t = NaN \<or> endTime t = NaN) exampleHints = []
   \<and> Suc 1 < length exampleHints
   \<and> dle (endTime (normalizeTimeline exampleHints ! 1))
        (startTime (normalizeTimeline exampleHints ! Suc 1))
   \<and> normalizeTimeline exampleHints ! 2 \<in> set (normalizeTimeline exampleHints)
   \<and> dle (dadd (startTime (normalizeTimeline exampleHints ! 2)) MIN_IMAGE_DURATION)
        (endTime (normalizeTimeline exampleHints ! 2))
   \<and> map entryId (normalizeTimeline exampleHints) = map entryId exampleHints"
proof -
  have f: "filter (\<lambda>t. startTime t = NaN \<or> endTime t = NaN) exampleHints = []"
    by code_simp
  have h: "\<forall>t \<in> set exampleHints. startTime t \<noteq> NaN \<and> endTime t \<noteq> NaN"
    using arg_cong [OF f, of set] by auto
  have l: "Suc 1 < length exampleHints" by (simp add: exampleHints_def)
  have m: "normalizeTimeline exampleHints ! 2 \<in> set (normalizeTimeline exampleHints)"
    by (rule nth_mem) (simp add: normalizeTimeline_def length_normalizeFrom, simp add: exampleHints_def)
  from normalization_invariant [of exampleHints]
  have k: "map (\<lambda>e. e\<lparr>startTime := Finite 0 0, endTime := Finite 0 0\<rparr>) (normalizeTimeline exampleHints)
            = map (\<lambda>e. e\<lparr>startTime := Finite 0 0, endTime := Finite 0 0\<rparr>) exampleHints"
    and a: "\<And>i. Suc i < length exampleHints \<Longrightarrow>
              dle (endTime (normalizeTimeline exampleHints ! i))
                (startTime (normalizeTimeline exampleHints ! Suc i))"
    and d: "\<And>e. e \<in> set (normalizeTimeline exampleHints) \<Longrightarrow>
              dle (dadd (startTime e) MIN_IMAGE_DURATION) (endTime e)"
    using h by blast+
  have "map entryId (normalizeTimeline exampleHints) = map entryId exampleHints"
    using arg_cong [OF k, of "map entryId"] by (simp add: comp_def)
  with f l m a [OF l] d [OF m] show ?thesis by simp
qed

text \<open>
  On the hints 0 to 1.1 for the first line and none for the second, the second entry
  starts at 1.1 and ends at the double nearest to 4.1: it lasts less than 3 seconds, and
  the difference as the host computes it is not 3.
\<close>

theorem fallback_duration_not_exact:
  "deq (startTime (shiftedHints ! 1)) (Finite 0 0) \<and> deq (endTime (shiftedHints ! 1)) (Finite 0 0)
   \<and> map (\<lambda>e. (exactValue (startTime e), exactValue (endTime e))) (normalizeTimeline shiftedHints)
       = [(0, 4953959590107546 / 2 ^ 52), (4953959590107546 / 2 ^ 52, 4616189618054758 / 2 ^ 50)]
   \<and> exactValue (endTime (normalizeTimeline shiftedHints ! 1))
       - exactValue (startTime (normalizeTimeline shiftedHints ! 1)) < 3
   \<and> exactValue (dsub (endTime (normalizeTimeline shiftedHints ! 1))
                   (startTime (normalizeTimeline shiftedHints ! 1))) = 6755399441055743 / 2 ^ 51
   \<and> \<not> deq (dsub (endTime (normalizeTimeline shiftedHints ! 1))
               (startTime (normalizeTimeline shiftedHints ! 1))) fallbackDurationPerSlide"
  by code_simp

text \<open>
  Claim C4, as the code has it. An entry that enters the sweep with start 0 and end 0
  leaves it ending at the sum, rounded to a double, of its start and 3, whatever the
  other hints are. When the hints of the entries before it are numbers, that start
  equals the end of the entry before it (0 for the first entry).
\<close>

theorem fallback_duration:
  "i < length ts \<Longrightarrow> deq (startTime (ts ! i)) (Finite 0 0) \<Longrightarrow> deq (endTime (ts ! i)) (Finite 0 0) \<Longrightarrow>
     endTime (normalizeTimeline ts ! i)
       = dadd (startTime (normalizeTimeline ts ! i)) fallbackDurationPerSlide
     \<and> ((\<forall>j < i. startTime (ts ! j) \<noteq> NaN \<and> endTime (ts ! j) \<noteq> NaN) \<longrightarrow>
          deq (startTime (normalizeTimeline ts ! i))
            (if i = 0 then Finite 0 0 else endTime (normalizeTimeline ts ! (i - 1))))"
proof -
  assume h: "i < length ts" "deq (startTime (ts ! i)) (Finite 0 0)"
    "deq (endTime (ts ! i)) (Finite 0 0)"
  have z: "dle (Finite 0 0) (Finite 0 0)" by simp
  show ?thesis
    unfolding normalizeTimeline_def
    using normalizeFrom_fallback [OF h] normalizeFrom_fallback_start [OF z h(1,2)]
    by blast
qed

theorem fallback_duration_witness:
  "(1::nat) < length exampleHints
   \<and> deq (startTime (exampleHints ! 1)) (Finite 0 0) \<and> deq (endTime (exampleHints ! 1)) (Finite 0 0)
   \<and> startTime (exampleHints ! 0) \<noteq> NaN \<and> endTime (exampleHints ! 0) \<noteq> NaN
   \<and> endTime (normalizeTimeline exampleHints ! 1)
       = dadd (startTime (normalizeTimeline exampleHints ! 1)) fallbackDurationPerSlide
   \<and> deq (startTime (normalizeTimeline exampleHints ! 1)) (endTime (normalizeTimeline exampleHints ! 0))
   \<and> exactValue (startTime (normalizeTimeline exampleHints ! 1)) = 2
   \<and> exactValue (endTime (normalizeTimeline exampleHints ! 1)) = 5"
proof -
  have h: "(1::nat) < length exampleHints" "deq (startTime (exampleHints ! 1)) (Finite 0 0)"
    "deq (endTime (exampleHints ! 1)) (Finite 0 0)"
    by (simp_all add: exampleHints_def)
  have n: "startTime (exampleHints ! 0) \<noteq> NaN" "endTime (exampleHints ! 0) \<noteq> NaN"
    by (simp_all add: exampleHints_def)
  then have p: "\<forall>j < (1::nat). startTime (exampleHints ! j) \<noteq> NaN \<and> endTime (exampleHints ! j) \<noteq> NaN"
    by simp
  have v: "exactValue (startTime (normalizeTimeline exampleHints ! 1)) = 2"
    "exactValue (endTime (normalizeTimeline exampleHints ! 1)) = 5"
    by code_simp+
  from fallback_duration [OF h] p h n v show ?thesis by simp
qed

subsection \<open>From lines and hints to the timeline\<close>

lemma timelineEntryOf_no_alignment:
  "find (\<lambda>a. alignLineId a = lineId line) alignments = None \<Longrightarrow>
     startTime (timelineEntryOf alignments line) = Finite 0 0
     \<and> endTime (timelineEntryOf alignments line) = Finite 0 0"
  by (simp add: timelineEntryOf_def)

lemma handleSync_order:
  "map entryId (handleSync ls alignments) = map lineId (completedLinesOf ls)"
proof -
  have "map entryId (normalizeFrom lastEnd ts) = map entryId ts" for lastEnd ts
    using arg_cong [OF normalizeFrom_keeps_entries [of lastEnd ts], of "map entryId"]
    by (simp add: comp_def)
  moreover have "entryId (timelineEntryOf alignments l) = lineId l" for l
    by (simp add: timelineEntryOf_def Let_def)
  ultimately show ?thesis
    by (simp add: handleSync_def normalizeTimeline_def comp_def)
qed

lemma handleSync_completed_only:
  "l \<in> set (completedLinesOf ls) \<Longrightarrow> l \<in> set ls \<and> status l = Completed"
  by (simp add: completedLinesOf_def)

section \<open>Batch generation controller: proofs\<close>

subsection \<open>What each block does to the lines, the session and the trace\<close>

lemma emit_sel [simp]:
  "scriptLines (emit ev st) = scriptLines st"
  "currentSession (emit ev st) = currentSession st"
  "trace (emit ev st) = trace st @ [ev]"
  by (simp_all add: emit_def)

lemma addLog_sel [simp]:
  "scriptLines (addLog m st) = scriptLines st"
  "currentSession (addLog m st) = currentSession st"
  "trace (addLog m st) = trace st @ [AddLog m]"
  by (simp_all add: addLog_def emit_def)

lemma prepareLine_sel [simp]:
  "scriptLines (prepareLine r st)
     = (scriptLines st)[r := (scriptLines st ! r)\<lparr>status := Generating, error := None\<rparr>]"
  "currentSession (prepareLine r st) = currentSession st"
  "trace (prepareLine r st)
     = trace st @ [SetScriptLines (scriptLines (prepareLine r st)), AddLog (LogGenerating (r + 1))]"
  by (simp_all add: prepareLine_def Let_def)

lemma onSuccess_sel [simp]:
  "scriptLines (onSuccess host r b st)
     = (scriptLines st)[r := (scriptLines st ! r)
          \<lparr>imageData := Some b,
            imageFileName := Some (imageFileNameOf host (spokenText (scriptLines st ! r))),
            status := Completed,
            batchId := Some (sessionBatchId (currentSession st)),
            timestamp := Some (toISOString host r)\<rparr>]"
  "currentSession (onSuccess host r b st) = (currentSession st)\<lparr>used := used (currentSession st) + 1\<rparr>"
  "trace (onSuccess host r b st)
     = trace st @ [SetApiKeySession ((currentSession st)\<lparr>used := used (currentSession st) + 1\<rparr>)]"
  by (simp_all add: onSuccess_def Let_def setApiKeySession_def emit_def)

lemma onAttemptsExhausted_sel [simp]:
  "scriptLines (onAttemptsExhausted r m st)
     = (scriptLines st)[r := (scriptLines st ! r)\<lparr>status := Failed, error := Some m\<rparr>]"
  "currentSession (onAttemptsExhausted r m st) = currentSession st"
  "trace (onAttemptsExhausted r m st) = trace st @ [AddLog (LogLineFailed (r + 1))]"
  by (simp_all add: onAttemptsExhausted_def Let_def)

lemma onQuotaHit_sel [simp]:
  "scriptLines (onQuotaHit r st) = (scriptLines st)[r := (scriptLines st ! r)\<lparr>status := Pending\<rparr>]"
  "currentSession (onQuotaHit r st) = currentSession st"
  "trace (onQuotaHit r st)
     = trace st @ [SetScriptLines (scriptLines (onQuotaHit r st)),
                   SetIsProcessingBatch False,
                   SetError (Some (ErrQuotaExhaustedAt (r + 1))),
                   SetKeyModalMessage MsgQuotaPrompt,
                   SetTempKey [],
                   SetShowKeyModal True]"
  "tempKey (onQuotaHit r st) = []"
  "showKeyModal (onQuotaHit r st) = True"
  "isProcessingBatch (onQuotaHit r st) = False"
  by (simp_all add: onQuotaHit_def Let_def setShowKeyModal_def setTempKey_def
        setKeyModalMessage_def setError_def setIsProcessingBatch_def emit_def)

text \<open>The retry loop, unrolled over its three attempts.\<close>

lemma retryLoop_unrolled:
  "retryLoop gen host r 0 False st =
     (case gen r 1 of
        Image b \<Rightarrow> Inr (onSuccess host r b (emit (GenerateCall r 1 (Image b)) st))
      | QuotaError m \<Rightarrow>
          Inl (m, addLog (LogQuotaError m) (emit (GenerateCall r 1 (QuotaError m)) st))
      | OtherError m1 \<Rightarrow>
          (let st1 = emit (Backoff 1500) (emit (ConsoleWarn 1 r)
                       (emit (GenerateCall r 1 (OtherError m1)) st)) in
           case gen r 2 of
             Image b \<Rightarrow> Inr (onSuccess host r b (emit (GenerateCall r 2 (Image b)) st1))
           | QuotaError m \<Rightarrow>
               Inl (m, addLog (LogQuotaError m) (emit (GenerateCall r 2 (QuotaError m)) st1))
           | OtherError m2 \<Rightarrow>
               (let st2 = emit (Backoff 1500) (emit (ConsoleWarn 2 r)
                            (emit (GenerateCall r 2 (OtherError m2)) st1)) in
                case gen r 3 of
                  Image b \<Rightarrow> Inr (onSuccess host r b (emit (GenerateCall r 3 (Image b)) st2))
                | QuotaError m \<Rightarrow>
                    Inl (m, addLog (LogQuotaError m) (emit (GenerateCall r 3 (QuotaError m)) st2))
                | OtherError m3 \<Rightarrow>
                    Inr (onAttemptsExhausted r m3 (emit (ConsoleWarn 3 r)
                           (emit (GenerateCall r 3 (OtherError m3)) st2))))))"
proof -
  have stop: "retryLoop gen host r k True s = Inr s" "retryLoop gen host r 3 ok s = Inr s" for k ok s
    by (simp_all add: retryLoop.simps)
  have two: "Suc (Suc 0) = 2" by simp
  have st0: "retryLoop gen host r 0 False s =
     (case gen r (Suc 0) of
        Image b \<Rightarrow> Inr (onSuccess host r b (emit (GenerateCall r (Suc 0) (Image b)) s))
      | QuotaError m \<Rightarrow>
          Inl (m, addLog (LogQuotaError m) (emit (GenerateCall r (Suc 0) (QuotaError m)) s))
      | OtherError m \<Rightarrow>
          retryLoop gen host r (Suc 0) False
            (emit (Backoff 1500) (emit (ConsoleWarn (Suc 0) r)
               (emit (GenerateCall r (Suc 0) (OtherError m)) s))))" for s
    by (subst retryLoop.simps) (simp add: stop split: gen_result.splits)
  have st1: "retryLoop gen host r (Suc 0) False s =
     (case gen r 2 of
        Image b \<Rightarrow> Inr (onSuccess host r b (emit (GenerateCall r 2 (Image b)) s))
      | QuotaError m \<Rightarrow>
          Inl (m, addLog (LogQuotaError m) (emit (GenerateCall r 2 (QuotaError m)) s))
      | OtherError m \<Rightarrow>
          retryLoop gen host r 2 False
            (emit (Backoff 1500) (emit (ConsoleWarn 2 r)
               (emit (GenerateCall r 2 (OtherError m)) s))))" for s
    by (subst retryLoop.simps) (simp add: stop two split: gen_result.splits)
  have st2: "retryLoop gen host r 2 False s =
     (case gen r 3 of
        Image b \<Rightarrow> Inr (onSuccess host r b (emit (GenerateCall r 3 (Image b)) s))
      | QuotaError m \<Rightarrow>
          Inl (m, addLog (LogQuotaError m) (emit (GenerateCall r 3 (QuotaError m)) s))
      | OtherError m \<Rightarrow>
          Inr (onAttemptsExhausted r m (emit (ConsoleWarn 3 r)
                 (emit (GenerateCall r 3 (OtherError m)) s))))" for s
    by (subst retryLoop.simps) (simp add: stop split: gen_result.splits)
  show ?thesis
    by (simp add: st0 st1 st2 Let_def split: gen_result.splits)
qed


lemma eventsSince_emit_chain [simp]:
  "eventsSince st (emit ev st') = eventsSince st st' @ [ev]" if "length (trace st) \<le> length (trace st')"
  using that by (simp add: eventsSince_def)

lemma body_skip:
  "status (scriptLines st ! r) = Completed \<Longrightarrow> loopBody gen host r st = Inr (Suc r, st)"
  by (simp add: loopBody_def)

lemma body_Inr_index: "loopBody gen host r st = Inr (r', st') \<Longrightarrow> r' = Suc r"
  by (auto simp: loopBody_def split: if_splits sum.splits prod.splits)

lemma body_length:
  "loopBody gen host r st = Inl st' \<Longrightarrow> length (scriptLines st') = length (scriptLines st)"
  "loopBody gen host r st = Inr (r', st') \<Longrightarrow> length (scriptLines st') = length (scriptLines st)"
  by (auto simp: loopBody_def retryLoop_unrolled Let_def split: if_splits gen_result.splits)

lemma body_frame:
  "loopBody gen host r st = Inl st' \<Longrightarrow> j \<noteq> r \<Longrightarrow> scriptLines st' ! j = scriptLines st ! j"
  "loopBody gen host r st = Inr (r', st') \<Longrightarrow> j \<noteq> r \<Longrightarrow> scriptLines st' ! j = scriptLines st ! j"
  by (auto simp: loopBody_def retryLoop_unrolled Let_def split: if_splits gen_result.splits)

lemma body_trace:
  "loopBody gen host r st = Inl st' \<Longrightarrow> trace st' = trace st @ eventsSince st st'"
  "loopBody gen host r st = Inr (r', st') \<Longrightarrow> trace st' = trace st @ eventsSince st st'"
  by (auto simp: loopBody_def retryLoop_unrolled Let_def eventsSince_def
           split: if_splits gen_result.splits)

lemmas body_simps = loopBody_def retryLoop_unrolled Let_def eventsSince_def

lemma body_session_Inr:
  "loopBody gen host r st = Inr (r', st') \<Longrightarrow>
     currentSession st'
       = (currentSession st)\<lparr>used := used (currentSession st) + int (successes (eventsSince st st'))\<rparr>
     \<and> successes (eventsSince st st') \<le> 1"
  by (auto simp: body_simps successes_def split: if_splits gen_result.splits)

lemma body_session_Inl:
  "loopBody gen host r st = Inl st' \<Longrightarrow>
     currentSession st' = currentSession st \<and> successes (eventsSince st st') = 0"
  by (auto simp: body_simps successes_def split: if_splits gen_result.splits)

lemma body_status_Inr:
  "loopBody gen host r st = Inr (r', st') \<Longrightarrow> r < length (scriptLines st) \<Longrightarrow>
     status (scriptLines st' ! r) = Completed \<or> status (scriptLines st' ! r) = Failed"
  by (auto simp: body_simps split: if_splits gen_result.splits)

lemma body_Inl:
  "loopBody gen host r st = Inl st' \<Longrightarrow> r < length (scriptLines st) \<Longrightarrow>
     status (scriptLines st' ! r) = Pending
     \<and> tempKey st' = [] \<and> showKeyModal st' \<and> \<not> isProcessingBatch st'"
  by (auto simp: body_simps split: if_splits gen_result.splits)

lemma body_Inl_events:
  "loopBody gen host r st = Inl st' \<Longrightarrow> GenerateCall i k (QuotaError m) \<in> set (eventsSince st st') \<Longrightarrow>
     eventsAfterQuota (eventsSince st st')
       = [AddLog (LogQuotaError m), SetScriptLines (scriptLines st'), SetIsProcessingBatch False,
          SetError (Some (ErrQuotaExhaustedAt (i + 1))), SetKeyModalMessage MsgQuotaPrompt,
          SetTempKey [], SetShowKeyModal True]"
  by (auto simp: body_simps eventsAfterQuota_def split: if_splits gen_result.splits)

lemma body_quota_iff:
  "loopBody gen host r st = Inl st' \<Longrightarrow> \<exists>ev \<in> set (eventsSince st st'). isQuotaCall ev"
  "loopBody gen host r st = Inr (r', st'') \<Longrightarrow> \<forall>ev \<in> set (eventsSince st st''). \<not> isQuotaCall ev"
  by (auto simp: body_simps split: if_splits gen_result.splits)

lemma body_calls:
  "loopBody gen host r st = Inl st' \<Longrightarrow> GenerateCall i k x \<in> set (eventsSince st st') \<Longrightarrow>
     i = r \<and> x = gen r k"
  "loopBody gen host r st = Inr (r', st'') \<Longrightarrow> GenerateCall i k x \<in> set (eventsSince st st'') \<Longrightarrow>
     i = r \<and> x = gen r k"
  by (auto simp: body_simps split: if_splits gen_result.splits)

lemma body_budget:
  "loopBody gen host r st = Inl st' \<Longrightarrow> used (currentSession st) < limit (currentSession st) \<Longrightarrow>
     callsWithinBudget (limit (currentSession st) - used (currentSession st)) (eventsSince st st')
     \<and> list_all snapshotWithinBudget (eventsSince st st')"
  "loopBody gen host r st = Inr (r', st'') \<Longrightarrow> used (currentSession st) < limit (currentSession st) \<Longrightarrow>
     callsWithinBudget (limit (currentSession st) - used (currentSession st)) (eventsSince st st'')
     \<and> list_all snapshotWithinBudget (eventsSince st st'')"
  by (auto simp: body_simps split: if_splits gen_result.splits)

lemma body_failed:
  "GenerateCall i 3 (OtherError m) \<in> set (eventsSince st st') \<Longrightarrow>
   loopBody gen host r st = Inr (r', st') \<Longrightarrow> r < length (scriptLines st) \<Longrightarrow>
     status (scriptLines st' ! r) = Failed \<and> error (scriptLines st' ! r) = Some m
     \<and> (\<exists>m1 m2. filter isCallOrBackoff (eventsSince st st')
           = [GenerateCall r 1 (OtherError m1), Backoff 1500,
              GenerateCall r 2 (OtherError m2), Backoff 1500,
              GenerateCall r 3 (OtherError m)])"
  by (auto simp: body_simps split: if_splits gen_result.splits)

lemma body_failed_Inl:
  "loopBody gen host r st = Inl st' \<Longrightarrow> GenerateCall i 3 (OtherError m) \<notin> set (eventsSince st st')"
  by (auto simp: body_simps split: if_splits gen_result.splits)

lemma body_first_call:
  "loopBody gen host r st = Inl st' \<Longrightarrow>
     GenerateCall r 1 (gen r 1) \<in> set (eventsSince st st')"
  "loopBody gen host r st = Inr (r', st'') \<Longrightarrow> status (scriptLines st ! r) \<noteq> Completed \<Longrightarrow>
     GenerateCall r 1 (gen r 1) \<in> set (eventsSince st st'')"
  by (auto simp: body_simps split: if_splits gen_result.splits)

lemma body_first_timing:
  "loopBody gen host r st = Inl st' \<Longrightarrow>
     \<exists>x rest. filter isCallOrBackoff (eventsSince st st') = GenerateCall r 1 x # rest"
  "loopBody gen host r st = Inr (r', st'') \<Longrightarrow>
     filter isCallOrBackoff (eventsSince st st'') = []
     \<or> (\<exists>x rest. filter isCallOrBackoff (eventsSince st st'') = GenerateCall r 1 x # rest)"
  by (auto simp: body_simps split: if_splits gen_result.splits)

subsection \<open>The outer loop\<close>

lemma batchLoop_stop:
  "\<not> (r < length (scriptLines st) \<and> used (currentSession st) < limit (currentSession st)) \<Longrightarrow>
     batchLoop gen host r st = Inr st"
  by (subst batchLoop.simps) auto

lemma batchLoop_quota:
  "r < length (scriptLines st) \<Longrightarrow> used (currentSession st) < limit (currentSession st) \<Longrightarrow>
     loopBody gen host r st = Inl st' \<Longrightarrow> batchLoop gen host r st = Inl st'"
  by (subst batchLoop.simps) simp

lemma batchLoop_continue:
  "r < length (scriptLines st) \<Longrightarrow> used (currentSession st) < limit (currentSession st) \<Longrightarrow>
     loopBody gen host r st = Inr (r', st1) \<Longrightarrow>
     batchLoop gen host r st = batchLoop gen host (Suc r) st1 \<and> r' = Suc r"
  using body_Inr_index [of gen host r st r' st1] by (subst batchLoop.simps) simp

lemma batchLoop_induct [case_names stop quota continue]:
  assumes stop: "\<And>r st. \<not> (r < length (scriptLines st)
                    \<and> used (currentSession st) < limit (currentSession st)) \<Longrightarrow> P r st (Inr st)"
    and quota: "\<And>r st st'. r < length (scriptLines st) \<Longrightarrow>
                  used (currentSession st) < limit (currentSession st) \<Longrightarrow>
                  loopBody gen host r st = Inl st' \<Longrightarrow> P r st (Inl st')"
    and continue: "\<And>r st st1. r < length (scriptLines st) \<Longrightarrow>
                  used (currentSession st) < limit (currentSession st) \<Longrightarrow>
                  loopBody gen host r st = Inr (Suc r, st1) \<Longrightarrow>
                  P (Suc r) st1 (batchLoop gen host (Suc r) st1) \<Longrightarrow>
                  P r st (batchLoop gen host (Suc r) st1)"
  shows "P r st (batchLoop gen host r st)"
  using assms
proof (induction gen host r st rule: batchLoop.induct)
  case (1 gen host r st)
  note stop = "1.prems"(1) and quota = "1.prems"(2) and continue = "1.prems"(3)
  show ?case
  proof (cases "r < length (scriptLines st)
                  \<and> used (currentSession st) < limit (currentSession st)")
    case False
    from stop [OF False] show ?thesis
      unfolding batchLoop_stop [OF False] .
  next
    case True
    then have c: "r < length (scriptLines st)"
      "used (currentSession st) < limit (currentSession st)" by blast+
    show ?thesis
    proof (cases "loopBody gen host r st")
      case (Inl st')
      from quota [OF c Inl] show ?thesis
        unfolding batchLoop_quota [OF c Inl] .
    next
      case (Inr x)
      obtain r' st1 where x: "x = (r', st1)" by (cases x)
      from batchLoop_continue [OF c Inr [unfolded x]]
      have eq: "batchLoop gen host r st = batchLoop gen host (Suc r) st1" and r': "r' = Suc r"
        by blast+
      have b: "loopBody gen host r st = Inr (Suc r, st1)"
        using Inr x r' by blast
      have "P r' st1 (batchLoop gen host r' st1)"
        by (rule "1.IH" [OF True Inr x [symmetric] "1.prems"])
      then have "P (Suc r) st1 (batchLoop gen host (Suc r) st1)"
        unfolding r' .
      from continue [OF c b this] show ?thesis
        unfolding eq .
    qed
  qed
qed

lemma outcomeState_simps [simp]:
  "outcomeState (Inl st) = st" "outcomeState (Inr st) = st"
  by (simp_all add: outcomeState_def)

lemma eventsSince_self [simp]: "eventsSince st st = []"
  by (simp add: eventsSince_def)

lemma eventsSince_append:
  "trace st1 = trace st @ eventsSince st st1 \<Longrightarrow> trace st2 = trace st1 @ eventsSince st1 st2 \<Longrightarrow>
     eventsSince st st2 = eventsSince st st1 @ eventsSince st1 st2
     \<and> trace st2 = trace st @ eventsSince st st2"
  by (metis append.assoc append_eq_conv_conj eventsSince_def)

lemma loop_length:
  "length (scriptLines (outcomeState (batchLoop gen host r st))) = length (scriptLines st)"
proof (induction r st rule: batchLoop_induct [where gen = gen and host = host])
  case (stop r st)
  show ?case by simp
next
  case (quota r st st')
  then show ?case by (simp add: body_length)
next
  case (continue r st st1)
  then show ?case by (simp add: body_length)
qed

lemma loop_trace:
  "trace (outcomeState (batchLoop gen host r st))
     = trace st @ eventsSince st (outcomeState (batchLoop gen host r st))"
proof (induction r st rule: batchLoop_induct [where gen = gen and host = host])
  case (stop r st)
  show ?case by simp
next
  case (quota r st st')
  then show ?case by (simp add: body_trace(1) [symmetric])
next
  case (continue r st st1)
  from eventsSince_append [OF body_trace(2) [OF continue(3)] continue(4)]
  show ?case by simp
qed

text \<open>The events of a continued loop: those of the pass, then those of the rest.\<close>

lemma loop_events_continue:
  "loopBody gen host r st = Inr (r', st1) \<Longrightarrow>
     eventsSince st (outcomeState (batchLoop gen host r'' st1))
       = eventsSince st st1 @ eventsSince st1 (outcomeState (batchLoop gen host r'' st1))"
  using eventsSince_append [OF body_trace(2) loop_trace] by blast

lemma loop_frame:
  "j < r \<or> status (scriptLines st ! j) = Completed \<Longrightarrow>
     scriptLines (outcomeState (batchLoop gen host r st)) ! j = scriptLines st ! j"
proof (induction r st rule: batchLoop_induct [where gen = gen and host = host])
  case (stop r st)
  show ?case by simp
next
  case (quota r st st')
  show ?case
  proof (cases "j = r")
    case True
    with quota.prems have "status (scriptLines st ! r) = Completed" by simp
    with quota.hyps(3) show ?thesis by (simp add: body_skip)
  next
    case False
    with quota.hyps(3) show ?thesis by (simp add: body_frame)
  qed
next
  case (continue r st st1)
  show ?case
  proof (cases "j = r")
    case True
    with continue.prems have "status (scriptLines st ! r) = Completed" by simp
    with continue.hyps(3) have "st1 = st" by (simp add: body_skip)
    with continue.IH True show ?thesis by simp
  next
    case False
    with continue.hyps(3) have "scriptLines st1 ! j = scriptLines st ! j"
      by (simp add: body_frame)
    with continue.IH continue.prems show ?thesis by auto
  qed
qed

lemma successes_append [simp]: "successes (a @ b) = successes a + successes b"
  by (simp add: successes_def)

lemma successes_Nil [simp]: "successes [] = 0"
  by (simp add: successes_def)

lemma loop_session:
  "currentSession (outcomeState (batchLoop gen host r st))
     = (currentSession st)\<lparr>used := used (currentSession st)
          + int (successes (eventsSince st (outcomeState (batchLoop gen host r st))))\<rparr>"
proof (induction r st rule: batchLoop_induct [where gen = gen and host = host])
  case (stop r st)
  show ?case by simp
next
  case (quota r st st')
  then show ?case by (simp add: body_session_Inl)
next
  case (continue r st st1)
  from continue.IH body_session_Inr [OF continue.hyps(3)] show ?case
    by (simp add: loop_events_continue [OF continue.hyps(3)])
qed

lemma callsWithinBudget_append:
  "callsWithinBudget n a \<Longrightarrow> callsWithinBudget (n - int (successes a)) b \<Longrightarrow>
     callsWithinBudget n (a @ b)"
proof (induction n a rule: callsWithinBudget.induct)
qed (simp_all add: successes_def algebra_simps)

lemma loop_budget:
  "used (currentSession st) \<le> limit (currentSession st) \<Longrightarrow>
     callsWithinBudget (limit (currentSession st) - used (currentSession st))
       (eventsSince st (outcomeState (batchLoop gen host r st)))
     \<and> list_all snapshotWithinBudget (eventsSince st (outcomeState (batchLoop gen host r st)))
     \<and> used (currentSession (outcomeState (batchLoop gen host r st)))
         \<le> limit (currentSession (outcomeState (batchLoop gen host r st)))"
proof (induction r st rule: batchLoop_induct [where gen = gen and host = host])
  case (stop r st)
  then show ?case by simp
next
  case (quota r st st')
  from body_budget(1) [OF quota.hyps(3) quota.hyps(2)] body_session_Inl [OF quota.hyps(3)]
    quota.prems
  show ?case by simp
next
  case (continue r st st1)
  note b = body_budget(2) [OF continue.hyps(3) continue.hyps(2)]
  note s = body_session_Inr [OF continue.hyps(3)]
  from s continue.hyps(2) have le: "used (currentSession st1) \<le> limit (currentSession st1)"
    by simp
  from s have rem: "limit (currentSession st1) - used (currentSession st1)
      = limit (currentSession st) - used (currentSession st) - int (successes (eventsSince st st1))"
    by simp
  from continue.IH [OF le] b rem show ?case
    by (simp add: loop_events_continue [OF continue.hyps(3)] callsWithinBudget_append)
qed

lemma loop_no_generating:
  "\<forall>j < length (scriptLines st). status (scriptLines st ! j) \<noteq> Generating \<Longrightarrow>
     \<forall>j < length (scriptLines st).
        status (scriptLines (outcomeState (batchLoop gen host r st)) ! j) \<noteq> Generating"
proof (induction r st rule: batchLoop_induct [where gen = gen and host = host])
  case (stop r st)
  then show ?case by simp
next
  case (quota r st st')
  show ?case
  proof (intro allI impI)
    fix j assume j: "j < length (scriptLines st)"
    show "status (scriptLines (outcomeState (Inl st')) ! j) \<noteq> Generating"
    proof (cases "j = r")
      case True
      with body_Inl [OF quota.hyps(3) quota.hyps(1)] show ?thesis by simp
    next
      case False
      with body_frame(1) [OF quota.hyps(3)] quota.prems j show ?thesis by simp
    qed
  qed
next
  case (continue r st st1)
  have len: "length (scriptLines st1) = length (scriptLines st)"
    by (rule body_length(2) [OF continue.hyps(3)])
  have "\<forall>j < length (scriptLines st1). status (scriptLines st1 ! j) \<noteq> Generating"
  proof (intro allI impI)
    fix j assume j: "j < length (scriptLines st1)"
    show "status (scriptLines st1 ! j) \<noteq> Generating"
    proof (cases "j = r")
      case True
      with body_status_Inr [OF continue.hyps(3) continue.hyps(1)] show ?thesis by auto
    next
      case False
      with body_frame(2) [OF continue.hyps(3)] continue.prems j len show ?thesis by simp
    qed
  qed
  from continue.IH [OF this] len show ?case by simp
qed

lemma loop_exit:
  "batchLoop gen host r st = Inr st' \<Longrightarrow>
     limit (currentSession st') \<le> used (currentSession st')
     \<or> (\<forall>j. r \<le> j \<and> j < length (scriptLines st) \<longrightarrow>
            status (scriptLines st' ! j) = Completed \<or> status (scriptLines st' ! j) = Failed)"
proof -
  have "\<forall>st'. batchLoop gen host r st = Inr st' \<longrightarrow>
     limit (currentSession st') \<le> used (currentSession st')
     \<or> (\<forall>j. r \<le> j \<and> j < length (scriptLines st) \<longrightarrow>
            status (scriptLines st' ! j) = Completed \<or> status (scriptLines st' ! j) = Failed)"
  proof (induction r st rule: batchLoop_induct [where gen = gen and host = host])
    case (stop r st)
    then show ?case by auto
  next
    case (quota r st st')
    show ?case by simp
  next
    case (continue r st st1)
    show ?case
    proof (intro allI impI)
      fix st' assume res: "batchLoop gen host (Suc r) st1 = Inr st'"
      have len: "length (scriptLines st1) = length (scriptLines st)"
        by (rule body_length(2) [OF continue.hyps(3)])
      have at_r: "scriptLines st' ! r = scriptLines st1 ! r"
        using loop_frame [of r "Suc r" st1 gen host] res by simp
      have done_r: "status (scriptLines st1 ! r) = Completed \<or> status (scriptLines st1 ! r) = Failed"
        by (rule body_status_Inr [OF continue.hyps(3) continue.hyps(1)])
      from continue.IH res
      consider "limit (currentSession st') \<le> used (currentSession st')"
        | "\<forall>j. Suc r \<le> j \<and> j < length (scriptLines st1) \<longrightarrow>
            status (scriptLines st' ! j) = Completed \<or> status (scriptLines st' ! j) = Failed"
        by blast
      then show "limit (currentSession st') \<le> used (currentSession st')
         \<or> (\<forall>j. r \<le> j \<and> j < length (scriptLines st) \<longrightarrow>
            status (scriptLines st' ! j) = Completed \<or> status (scriptLines st' ! j) = Failed)"
      proof cases
        case 1
        then show ?thesis by simp
      next
        case 2
        have "status (scriptLines st' ! j) = Completed \<or> status (scriptLines st' ! j) = Failed"
          if "r \<le> j" "j < length (scriptLines st)" for j
        proof (cases "j = r")
          case True
          with at_r done_r show ?thesis by simp
        next
          case False
          with that 2 len show ?thesis by simp
        qed
        then show ?thesis by blast
      qed
    qed
  qed
  then show "batchLoop gen host r st = Inr st' \<Longrightarrow> ?thesis" by blast
qed

lemma loop_calls:
  "GenerateCall i k x \<in> set (eventsSince st (outcomeState (batchLoop gen host r st))) \<Longrightarrow>
     r \<le> i \<and> i < length (scriptLines st) \<and> x = gen i k"
proof (induction r st rule: batchLoop_induct [where gen = gen and host = host])
  case (stop r st)
  then show ?case by simp
next
  case (quota r st st')
  with body_calls(1) [OF quota.hyps(3)] show ?case by auto
next
  case (continue r st st1)
  have len: "length (scriptLines st1) = length (scriptLines st)"
    by (rule body_length(2) [OF continue.hyps(3)])
  from continue.prems
  consider "GenerateCall i k x \<in> set (eventsSince st st1)"
    | "GenerateCall i k x \<in> set (eventsSince st1 (outcomeState (batchLoop gen host (Suc r) st1)))"
    by (auto simp: loop_events_continue [OF continue.hyps(3)])
  then show ?case
  proof cases
    case 1
    with body_calls(2) [OF continue.hyps(3)] continue.hyps(1) show ?thesis by auto
  next
    case 2
    with continue.IH len show ?thesis by auto
  qed
qed

lemma loop_quota_Inr:
  "batchLoop gen host r st = Inr st' \<Longrightarrow> \<forall>ev \<in> set (eventsSince st st'). \<not> isQuotaCall ev"
proof -
  have "\<forall>st'. batchLoop gen host r st = Inr st' \<longrightarrow> (\<forall>ev \<in> set (eventsSince st st'). \<not> isQuotaCall ev)"
  proof (induction r st rule: batchLoop_induct [where gen = gen and host = host])
    case (stop r st)
    then show ?case by simp
  next
    case (quota r st st')
    then show ?case by simp
  next
    case (continue r st st1)
    show ?case
    proof (intro allI impI)
      fix st' assume res: "batchLoop gen host (Suc r) st1 = Inr st'"
      from loop_events_continue [OF continue.hyps(3), of "Suc r"] res
      have "eventsSince st st' = eventsSince st st1 @ eventsSince st1 st'" by simp
      with continue.IH res body_quota_iff(2) [OF continue.hyps(3)]
      show "\<forall>ev \<in> set (eventsSince st st'). \<not> isQuotaCall ev" by auto
    qed
  qed
  then show "batchLoop gen host r st = Inr st' \<Longrightarrow> ?thesis" by blast
qed

lemma eventsAfterQuota_append:
  "\<forall>ev \<in> set a. \<not> isQuotaCall ev \<Longrightarrow> eventsAfterQuota (a @ b) = eventsAfterQuota b"
  by (simp add: eventsAfterQuota_def dropWhile_append2)

lemma loop_quota_Inl:
  "batchLoop gen host r st = Inl st' \<Longrightarrow>
   GenerateCall i k (QuotaError m) \<in> set (eventsSince st st') \<Longrightarrow>
     status (scriptLines st' ! i) = Pending
     \<and> (\<forall>j > i. scriptLines st' ! j = scriptLines st ! j)
     \<and> eventsAfterQuota (eventsSince st st')
         = [AddLog (LogQuotaError m), SetScriptLines (scriptLines st'), SetIsProcessingBatch False,
            SetError (Some (ErrQuotaExhaustedAt (i + 1))), SetKeyModalMessage MsgQuotaPrompt,
            SetTempKey [], SetShowKeyModal True]
     \<and> tempKey st' = [] \<and> showKeyModal st' \<and> \<not> isProcessingBatch st'"
proof -
  have "\<forall>st'. batchLoop gen host r st = Inl st' \<longrightarrow>
      GenerateCall i k (QuotaError m) \<in> set (eventsSince st st') \<longrightarrow>
     status (scriptLines st' ! i) = Pending
     \<and> (\<forall>j > i. scriptLines st' ! j = scriptLines st ! j)
     \<and> eventsAfterQuota (eventsSince st st')
         = [AddLog (LogQuotaError m), SetScriptLines (scriptLines st'), SetIsProcessingBatch False,
            SetError (Some (ErrQuotaExhaustedAt (i + 1))), SetKeyModalMessage MsgQuotaPrompt,
            SetTempKey [], SetShowKeyModal True]
     \<and> tempKey st' = [] \<and> showKeyModal st' \<and> \<not> isProcessingBatch st'"
  proof (induction r st rule: batchLoop_induct [where gen = gen and host = host])
    case (stop r st)
    show ?case by simp
  next
    case (quota r st st')
    show ?case
    proof (intro allI impI)
      fix s assume "Inl st' = Inl s"
        and ev: "GenerateCall i k (QuotaError m) \<in> set (eventsSince st s)"
      then have s: "s = st'" by simp
      from body_calls(1) [OF quota.hyps(3) ev [unfolded s]] have i: "i = r" by simp
      from body_Inl [OF quota.hyps(3) quota.hyps(1)]
        body_Inl_events [OF quota.hyps(3) ev [unfolded s]]
        body_frame(1) [OF quota.hyps(3)]
      show "status (scriptLines s ! i) = Pending
     \<and> (\<forall>j > i. scriptLines s ! j = scriptLines st ! j)
     \<and> eventsAfterQuota (eventsSince st s)
         = [AddLog (LogQuotaError m), SetScriptLines (scriptLines s), SetIsProcessingBatch False,
            SetError (Some (ErrQuotaExhaustedAt (i + 1))), SetKeyModalMessage MsgQuotaPrompt,
            SetTempKey [], SetShowKeyModal True]
     \<and> tempKey s = [] \<and> showKeyModal s \<and> \<not> isProcessingBatch s"
        unfolding s i by simp
    qed
  next
    case (continue r st st1)
    show ?case
    proof (intro allI impI)
      fix s assume res: "batchLoop gen host (Suc r) st1 = Inl s"
        and ev: "GenerateCall i k (QuotaError m) \<in> set (eventsSince st s)"
      from loop_events_continue [OF continue.hyps(3), of "Suc r"] res
      have evs: "eventsSince st s = eventsSince st st1 @ eventsSince st1 s" by simp
      note nq = body_quota_iff(2) [OF continue.hyps(3)]
      from ev evs nq have ev': "GenerateCall i k (QuotaError m) \<in> set (eventsSince st1 s)"
        by auto
      from loop_calls [of i k "QuotaError m" st1 gen host "Suc r"] ev' res
      have i: "Suc r \<le> i" by simp
      from continue.IH res ev'
      have ih: "status (scriptLines s ! i) = Pending"
        "\<forall>j > i. scriptLines s ! j = scriptLines st1 ! j"
        "eventsAfterQuota (eventsSince st1 s)
         = [AddLog (LogQuotaError m), SetScriptLines (scriptLines s), SetIsProcessingBatch False,
            SetError (Some (ErrQuotaExhaustedAt (i + 1))), SetKeyModalMessage MsgQuotaPrompt,
            SetTempKey [], SetShowKeyModal True]"
        "tempKey s = [] \<and> showKeyModal s \<and> \<not> isProcessingBatch s"
        by blast+
      have fr: "\<forall>j > i. scriptLines s ! j = scriptLines st ! j"
        using ih(2) body_frame(2) [OF continue.hyps(3)] i by auto
      from ih(1) fr ih(3) ih(4) eventsAfterQuota_append [OF nq]
      show "status (scriptLines s ! i) = Pending
     \<and> (\<forall>j > i. scriptLines s ! j = scriptLines st ! j)
     \<and> eventsAfterQuota (eventsSince st s)
         = [AddLog (LogQuotaError m), SetScriptLines (scriptLines s), SetIsProcessingBatch False,
            SetError (Some (ErrQuotaExhaustedAt (i + 1))), SetKeyModalMessage MsgQuotaPrompt,
            SetTempKey [], SetShowKeyModal True]
     \<and> tempKey s = [] \<and> showKeyModal s \<and> \<not> isProcessingBatch s"
        unfolding evs by simp
    qed
  qed
  then show "batchLoop gen host r st = Inl st' \<Longrightarrow>
    GenerateCall i k (QuotaError m) \<in> set (eventsSince st st') \<Longrightarrow> ?thesis" by blast
qed

lemma loop_starts:
  assumes "r < length (scriptLines st)" "used (currentSession st) < limit (currentSession st)"
    "status (scriptLines st ! r) \<noteq> Completed"
  shows "GenerateCall r 1 (gen r 1) \<in> set (eventsSince st (outcomeState (batchLoop gen host r st)))"
proof (cases "loopBody gen host r st")
  case (Inl st')
  from batchLoop_quota [OF assms(1,2) Inl] body_first_call(1) [OF Inl] show ?thesis by simp
next
  case (Inr x)
  obtain r' st1 where x: "x = (r', st1)" by (cases x)
  note b = Inr [unfolded x]
  from batchLoop_continue [OF assms(1,2) b] body_first_call(2) [OF b assms(3)]
  show ?thesis by (simp add: loop_events_continue [OF b])
qed

lemma loop_first_timing:
  "filter isCallOrBackoff (eventsSince st (outcomeState (batchLoop gen host r st))) = []
   \<or> (\<exists>j x rest. filter isCallOrBackoff (eventsSince st (outcomeState (batchLoop gen host r st)))
         = GenerateCall j 1 x # rest)"
proof (induction r st rule: batchLoop_induct [where gen = gen and host = host])
  case (stop r st)
  show ?case by simp
next
  case (quota r st st')
  from body_first_timing(1) [OF quota.hyps(3)] show ?case by auto
next
  case (continue r st st1)
  from body_first_timing(2) [OF continue.hyps(3)] continue.IH show ?case
    by (auto simp: loop_events_continue [OF continue.hyps(3)])
qed

lemma body_failed_session:
  "GenerateCall i 3 (OtherError m) \<in> set (eventsSince st st') \<Longrightarrow>
   loopBody gen host r st = Inr (r', st') \<Longrightarrow> currentSession st' = currentSession st"
  by (auto simp: body_simps split: if_splits gen_result.splits)

lemma loop_failed:
  "GenerateCall i 3 (OtherError m)
     \<in> set (eventsSince st (outcomeState (batchLoop gen host r st))) \<Longrightarrow>
   status (scriptLines (outcomeState (batchLoop gen host r st)) ! i) = Failed
   \<and> error (scriptLines (outcomeState (batchLoop gen host r st)) ! i) = Some m
   \<and> (\<exists>pre post m1 m2.
         filter isCallOrBackoff (eventsSince st (outcomeState (batchLoop gen host r st)))
           = pre @ [GenerateCall i 1 (OtherError m1), Backoff 1500,
                    GenerateCall i 2 (OtherError m2), Backoff 1500,
                    GenerateCall i 3 (OtherError m)] @ post
         \<and> (post = [] \<or> (\<exists>j x rest. post = GenerateCall j 1 x # rest)))
   \<and> (Suc i < length (scriptLines st) \<and> status (scriptLines st ! Suc i) \<noteq> Completed \<longrightarrow>
        GenerateCall (Suc i) 1 (gen (Suc i) 1)
          \<in> set (eventsSince st (outcomeState (batchLoop gen host r st))))"
proof (induction r st rule: batchLoop_induct [where gen = gen and host = host])
  case (stop r st)
  then show ?case by simp
next
  case (quota r st st')
  with body_failed_Inl [OF quota.hyps(3)] show ?case by simp
next
  case (continue r st st1)
  let ?st' = "outcomeState (batchLoop gen host (Suc r) st1)"
  note b = continue.hyps(3)
  have evs: "eventsSince st ?st' = eventsSince st st1 @ eventsSince st1 ?st'"
    by (rule loop_events_continue [OF b])
  have len: "length (scriptLines st1) = length (scriptLines st)"
    by (rule body_length(2) [OF b])
  show ?case
  proof (cases "GenerateCall i 3 (OtherError m) \<in> set (eventsSince st st1)")
    case True
    from body_calls(2) [OF b True] have i: "i = r" by simp
    from body_failed [OF True b continue.hyps(1)]
    obtain m1 m2 where f: "status (scriptLines st1 ! r) = Failed"
      "error (scriptLines st1 ! r) = Some m"
      "filter isCallOrBackoff (eventsSince st st1)
           = [GenerateCall r 1 (OtherError m1), Backoff 1500,
              GenerateCall r 2 (OtherError m2), Backoff 1500,
              GenerateCall r 3 (OtherError m)]"
      by blast
    have keep: "scriptLines ?st' ! r = scriptLines st1 ! r"
      by (rule loop_frame) simp
    have sess: "currentSession st1 = currentSession st"
      by (rule body_failed_session [OF True b])
    have timing: "\<exists>pre post m1 m2.
         filter isCallOrBackoff (eventsSince st ?st')
           = pre @ [GenerateCall i 1 (OtherError m1), Backoff 1500,
                    GenerateCall i 2 (OtherError m2), Backoff 1500,
                    GenerateCall i 3 (OtherError m)] @ post
         \<and> (post = [] \<or> (\<exists>j x rest. post = GenerateCall j 1 x # rest))"
    proof (intro exI conjI)
      show "filter isCallOrBackoff (eventsSince st ?st')
           = [] @ [GenerateCall i 1 (OtherError m1), Backoff 1500,
                    GenerateCall i 2 (OtherError m2), Backoff 1500,
                    GenerateCall i 3 (OtherError m)]
              @ filter isCallOrBackoff (eventsSince st1 ?st')"
        unfolding evs i using f(3) by simp
      show "filter isCallOrBackoff (eventsSince st1 ?st') = []
         \<or> (\<exists>j x rest. filter isCallOrBackoff (eventsSince st1 ?st') = GenerateCall j 1 x # rest)"
        by (rule loop_first_timing)
    qed
    have nxt: "GenerateCall (Suc i) 1 (gen (Suc i) 1) \<in> set (eventsSince st ?st')"
      if "Suc i < length (scriptLines st)" "status (scriptLines st ! Suc i) \<noteq> Completed"
    proof -
      from body_frame(2) [OF b, of "Suc r"] have "scriptLines st1 ! Suc r = scriptLines st ! Suc r"
        by simp
      with that i len sess continue.hyps(2)
      have "GenerateCall (Suc r) 1 (gen (Suc r) 1) \<in> set (eventsSince st1 ?st')"
        by (intro loop_starts) simp_all
      then show ?thesis unfolding evs i by simp
    qed
    from f(1,2) keep timing nxt show ?thesis
      unfolding i by simp
  next
    case False
    with continue.prems have ev: "GenerateCall i 3 (OtherError m) \<in> set (eventsSince st1 ?st')"
      unfolding evs by simp
    from loop_calls [OF ev] have i: "Suc r \<le> i" by simp
    from continue.IH [OF ev]
    obtain pre post m1 m2 where ih: "status (scriptLines ?st' ! i) = Failed"
      "error (scriptLines ?st' ! i) = Some m"
      "filter isCallOrBackoff (eventsSince st1 ?st')
           = pre @ [GenerateCall i 1 (OtherError m1), Backoff 1500,
                    GenerateCall i 2 (OtherError m2), Backoff 1500,
                    GenerateCall i 3 (OtherError m)] @ post"
      "post = [] \<or> (\<exists>j x rest. post = GenerateCall j 1 x # rest)"
      "Suc i < length (scriptLines st1) \<and> status (scriptLines st1 ! Suc i) \<noteq> Completed \<longrightarrow>
        GenerateCall (Suc i) 1 (gen (Suc i) 1) \<in> set (eventsSince st1 ?st')"
      by blast
    have timing: "\<exists>pre post m1 m2.
         filter isCallOrBackoff (eventsSince st ?st')
           = pre @ [GenerateCall i 1 (OtherError m1), Backoff 1500,
                    GenerateCall i 2 (OtherError m2), Backoff 1500,
                    GenerateCall i 3 (OtherError m)] @ post
         \<and> (post = [] \<or> (\<exists>j x rest. post = GenerateCall j 1 x # rest))"
    proof (intro exI conjI)
      show "filter isCallOrBackoff (eventsSince st ?st')
           = (filter isCallOrBackoff (eventsSince st st1) @ pre)
              @ [GenerateCall i 1 (OtherError m1), Backoff 1500,
                    GenerateCall i 2 (OtherError m2), Backoff 1500,
                    GenerateCall i 3 (OtherError m)] @ post"
        unfolding evs using ih(3) by simp
      show "post = [] \<or> (\<exists>j x rest. post = GenerateCall j 1 x # rest)"
        by (rule ih(4))
    qed
    from body_frame(2) [OF b, of "Suc i"] i
    have same: "scriptLines st1 ! Suc i = scriptLines st ! Suc i" by simp
    from ih(5) same len
    have nxt: "Suc i < length (scriptLines st) \<and> status (scriptLines st ! Suc i) \<noteq> Completed \<longrightarrow>
        GenerateCall (Suc i) 1 (gen (Suc i) 1) \<in> set (eventsSince st ?st')"
      unfolding evs by simp
    from ih(1,2) timing nxt show ?thesis by simp
  qed
qed

subsection \<open>The whole run\<close>

lemma findIndex_Some:
  "findIndex P xs = Some r \<Longrightarrow> r < length xs \<and> P (xs ! r) \<and> (\<forall>j < r. \<not> P (xs ! j))"
proof (induction xs arbitrary: r)
  case Nil
  then show ?case by simp
next
  case (Cons x xs)
  show ?case
  proof (cases "P x")
    case True
    with Cons.prems show ?thesis by simp
  next
    case False
    with Cons.prems obtain r' where r': "findIndex P xs = Some r'" "r = Suc r'"
      by auto
    from Cons.IH [OF r'(1)] False r'(2) show ?thesis
      by (auto simp: nth_Cons split: nat.splits)
  qed
qed

lemma findIndex_None: "findIndex P xs = None \<longleftrightarrow> (\<forall>x \<in> set xs. \<not> P x)"
  by (induction xs) auto

lemma loopStart_sel [simp]:
  "scriptLines (loopStart session r st) = scriptLines st"
  "currentSession (loopStart session r st) = session"
  "trace (loopStart session r st)
     = trace st @ [SetIsProcessingBatch True, SetError None, AddLog (LogProcessingFrom (r + 1))]"
  by (simp_all add: loopStart_def setError_def setIsProcessingBatch_def emit_def addLog_def)

lemma afterLoop_sel [simp]:
  "scriptLines (afterLoop st) = scriptLines st"
  "currentSession (afterLoop st) = currentSession st"
  by (simp_all add: afterLoop_def setShowKeyModal_def setTempKey_def setKeyModalMessage_def
        emit_def addLog_def split: option.splits)

lemma afterLoop_trace:
  "trace (afterLoop st) = trace st @ eventsSince st (afterLoop st)
   \<and> (\<forall>ev \<in> set (eventsSince st (afterLoop st)). \<not> isCallOrBackoff ev \<and> snapshotWithinBudget ev)"
  by (simp add: afterLoop_def setShowKeyModal_def setTempKey_def setKeyModalMessage_def
        emit_def addLog_def eventsSince_def split: option.splits)

lemma afterLoop_pause:
  "findIndex (\<lambda>l. status l = Pending) (scriptLines st) \<noteq> None \<Longrightarrow>
   limit (currentSession st) \<le> used (currentSession st) \<Longrightarrow>
     tempKey (afterLoop st) = [] \<and> showKeyModal (afterLoop st)
     \<and> eventsSince st (afterLoop st)
         = [AddLog (LogBatchLimit (limit (currentSession st))),
            SetKeyModalMessage (MsgBatchComplete (limit (currentSession st))),
            SetTempKey [], SetShowKeyModal True]"
  by (auto simp: afterLoop_def setShowKeyModal_def setTempKey_def setKeyModalMessage_def
        emit_def addLog_def eventsSince_def split: option.splits)

lemma setIsProcessingBatch_sel [simp]:
  "scriptLines (setIsProcessingBatch b st) = scriptLines st"
  "currentSession (setIsProcessingBatch b st) = currentSession st"
  "trace (setIsProcessingBatch b st) = trace st @ [SetIsProcessingBatch b]"
  "isProcessingBatch (setIsProcessingBatch b st) = b"
  by (simp_all add: setIsProcessingBatch_def emit_def)

lemma afterLoop_not_processing [simp]:
  "isProcessingBatch (afterLoop st) = isProcessingBatch st"
  by (simp add: afterLoop_def setShowKeyModal_def setTempKey_def setKeyModalMessage_def
        emit_def addLog_def split: option.splits)

lemma eventsSince_eqI: "trace st' = trace st @ evs \<Longrightarrow> eventsSince st st' = evs"
  by (simp add: eventsSince_def)

text \<open>The three ways a run can go.\<close>

lemma processBatch_cases [consumes 1, case_names nothing quota exit]:
  assumes "\<not> isProcessingBatch st"
  obtains
    (nothing) "findIndex (\<lambda>l. status l = Pending \<or> status l = Failed) (scriptLines st) = None"
      "scriptLines (processBatch gen host session st) = scriptLines st"
      "currentSession (processBatch gen host session st) = session"
      "runEvents gen host session st
         = [SetIsProcessingBatch True, SetError None, AddLog LogAllCompleted,
            SetIsProcessingBatch False]"
  | (quota) r st' where
      "findIndex (\<lambda>l. status l = Pending \<or> status l = Failed) (scriptLines st) = Some r"
      "batchLoop gen host r (loopStart session r st) = Inl st'"
      "processBatch gen host session st = st'"
      "runEvents gen host session st
         = [SetIsProcessingBatch True, SetError None, AddLog (LogProcessingFrom (r + 1))]
           @ eventsSince (loopStart session r st) st'"
  | (exit) r st' where
      "findIndex (\<lambda>l. status l = Pending \<or> status l = Failed) (scriptLines st) = Some r"
      "batchLoop gen host r (loopStart session r st) = Inr st'"
      "processBatch gen host session st = afterLoop (setIsProcessingBatch False st')"
      "runEvents gen host session st
         = [SetIsProcessingBatch True, SetError None, AddLog (LogProcessingFrom (r + 1))]
           @ eventsSince (loopStart session r st) st'
           @ [SetIsProcessingBatch False]
           @ eventsSince (setIsProcessingBatch False st') (afterLoop (setIsProcessingBatch False st'))"
proof (cases "findIndex (\<lambda>l. status l = Pending \<or> status l = Failed) (scriptLines st)")
  case None
  with assms have
    "scriptLines (processBatch gen host session st) = scriptLines st"
    "currentSession (processBatch gen host session st) = session"
    "runEvents gen host session st
         = [SetIsProcessingBatch True, SetError None, AddLog LogAllCompleted,
            SetIsProcessingBatch False]"
    by (simp_all add: processBatch_def runEvents_def eventsSince_def Let_def setError_def
          setIsProcessingBatch_def emit_def addLog_def)
  with None show ?thesis by (rule nothing)
next
  case (Some r)
  let ?s = "loopStart session r st"
  have start: "processBatch gen host session st
      = (case batchLoop gen host r ?s of Inl st' \<Rightarrow> st'
         | Inr st' \<Rightarrow> afterLoop (setIsProcessingBatch False st'))"
    using assms Some
    by (simp add: processBatch_def Let_def loopStart_def setError_def setIsProcessingBatch_def
          emit_def)
  have tr: "trace (outcomeState (batchLoop gen host r ?s))
     = trace ?s @ eventsSince ?s (outcomeState (batchLoop gen host r ?s))"
    by (rule loop_trace)
  show ?thesis
  proof (cases "batchLoop gen host r ?s")
    case (Inl st')
    with start have pb: "processBatch gen host session st = st'" by simp
    from tr Inl have "trace st' = trace st
        @ [SetIsProcessingBatch True, SetError None, AddLog (LogProcessingFrom (r + 1))]
        @ eventsSince ?s st'"
      by simp
    then have "runEvents gen host session st
         = [SetIsProcessingBatch True, SetError None, AddLog (LogProcessingFrom (r + 1))]
           @ eventsSince ?s st'"
      unfolding runEvents_def pb by (rule eventsSince_eqI)
    with Some Inl pb show ?thesis by (rule quota)
  next
    case (Inr st')
    let ?e = "setIsProcessingBatch False st'"
    from Inr start have pb: "processBatch gen host session st = afterLoop ?e" by simp
    from tr Inr have t1: "trace st' = trace st
        @ [SetIsProcessingBatch True, SetError None, AddLog (LogProcessingFrom (r + 1))]
        @ eventsSince ?s st'"
      by simp
    from afterLoop_trace [of ?e] have "trace (afterLoop ?e)
        = trace st' @ [SetIsProcessingBatch False] @ eventsSince ?e (afterLoop ?e)"
      by simp
    with t1 have "trace (afterLoop ?e) = trace st
        @ ([SetIsProcessingBatch True, SetError None, AddLog (LogProcessingFrom (r + 1))]
        @ eventsSince ?s st' @ [SetIsProcessingBatch False] @ eventsSince ?e (afterLoop ?e))"
      by simp
    then have "runEvents gen host session st
         = [SetIsProcessingBatch True, SetError None, AddLog (LogProcessingFrom (r + 1))]
           @ eventsSince ?s st' @ [SetIsProcessingBatch False] @ eventsSince ?e (afterLoop ?e)"
      unfolding runEvents_def pb by (rule eventsSince_eqI)
    with Some Inr pb show ?thesis by (rule exit)
  qed
qed

subsection \<open>Further facts about the loop and the run\<close>

lemma runEvents_noop: "isProcessingBatch st \<Longrightarrow> runEvents gen host session st = []"
  by (simp add: runEvents_def processBatch_def)

lemma body_calls_not_completed:
  "loopBody gen host r st = Inl st' \<Longrightarrow> GenerateCall i k x \<in> set (eventsSince st st') \<Longrightarrow>
     status (scriptLines st ! r) \<noteq> Completed"
  "loopBody gen host r st = Inr (r', st'') \<Longrightarrow> GenerateCall i k x \<in> set (eventsSince st st'') \<Longrightarrow>
     status (scriptLines st ! r) \<noteq> Completed"
  by (auto simp: body_simps split: if_splits gen_result.splits)

lemma loop_no_call_completed:
  "status (scriptLines st ! j) = Completed \<Longrightarrow>
     GenerateCall j k x \<notin> set (eventsSince st (outcomeState (batchLoop gen host r st)))"
proof (induction r st rule: batchLoop_induct [where gen = gen and host = host])
  case (stop r st)
  show ?case by simp
next
  case (quota r st st')
  from body_calls(1) [OF quota.hyps(3)] body_calls_not_completed(1) [OF quota.hyps(3)] quota.prems
  show ?case by auto
next
  case (continue r st st1)
  note b = continue.hyps(3)
  have first: "GenerateCall j k x \<notin> set (eventsSince st st1)"
    using body_calls(2) [OF b] body_calls_not_completed(2) [OF b] continue.prems by auto
  have "status (scriptLines st1 ! j) = Completed"
  proof (cases "j = r")
    case True
    with continue.prems b have "st1 = st" by (simp add: body_skip)
    with continue.prems show ?thesis by simp
  next
    case False
    with body_frame(2) [OF b] continue.prems show ?thesis by simp
  qed
  from continue.IH [OF this] first show ?case
    by (simp add: loop_events_continue [OF b])
qed

text \<open>Lines left unattempted by a loop that exits: the budget is used up.\<close>

lemma loop_unattempted:
  "batchLoop gen host r st = Inr st' \<Longrightarrow> r \<le> j \<Longrightarrow> j < length (scriptLines st) \<Longrightarrow>
   status (scriptLines st ! j) \<noteq> Completed \<Longrightarrow>
   \<forall>k x. GenerateCall j k x \<notin> set (eventsSince st st') \<Longrightarrow>
     limit (currentSession st') \<le> used (currentSession st')"
proof -
  have "\<forall>st'. batchLoop gen host r st = Inr st' \<longrightarrow> r \<le> j \<longrightarrow> j < length (scriptLines st) \<longrightarrow>
     status (scriptLines st ! j) \<noteq> Completed \<longrightarrow>
     (\<forall>k x. GenerateCall j k x \<notin> set (eventsSince st st')) \<longrightarrow>
     limit (currentSession st') \<le> used (currentSession st')"
  proof (induction r st rule: batchLoop_induct [where gen = gen and host = host])
    case (stop r st)
    then show ?case by auto
  next
    case (quota r st st')
    show ?case by simp
  next
    case (continue r st st1)
    note b = continue.hyps(3)
    show ?case
    proof (intro allI impI)
      fix st' assume res: "batchLoop gen host (Suc r) st1 = Inr st'"
        and j: "r \<le> j" "j < length (scriptLines st)" "status (scriptLines st ! j) \<noteq> Completed"
        and none: "\<forall>k x. GenerateCall j k x \<notin> set (eventsSince st st')"
      from loop_events_continue [OF b, of "Suc r"] res
      have evs: "eventsSince st st' = eventsSince st st1 @ eventsSince st1 st'" by simp
      have "j \<noteq> r"
      proof
        assume "j = r"
        with body_first_call(2) [OF b] j(3) none evs show False by auto
      qed
      with j(1) have "Suc r \<le> j" by simp
      moreover from body_length(2) [OF b] j(2) have "j < length (scriptLines st1)" by simp
      moreover from body_frame(2) [OF b \<open>j \<noteq> r\<close>] j(3)
      have "status (scriptLines st1 ! j) \<noteq> Completed" by simp
      moreover from none evs have "\<forall>k x. GenerateCall j k x \<notin> set (eventsSince st1 st')" by simp
      ultimately show "limit (currentSession st') \<le> used (currentSession st')"
        using continue.IH res by blast
    qed
  qed
  then show "batchLoop gen host r st = Inr st' \<Longrightarrow> r \<le> j \<Longrightarrow> j < length (scriptLines st) \<Longrightarrow>
   status (scriptLines st ! j) \<noteq> Completed \<Longrightarrow>
   \<forall>k x. GenerateCall j k x \<notin> set (eventsSince st st') \<Longrightarrow> ?thesis" by blast
qed

lemma parseScript_all_pending: "l \<in> set (parseScript t) \<Longrightarrow> status l = Pending"
proof -
  assume "l \<in> set (parseScript t)"
  then obtain i where i: "i < length (parseScript t)" "parseScript t ! i = l"
    by (auto simp: in_set_conv_nth)
  then have "l = parseLine i (scriptInputLines t ! i)"
    by (simp add: parseScript_def length_mapIdx nth_mapIdx)
  then show ?thesis by (simp add: parseLine_fresh)
qed

lemma processBatch_no_generating:
  assumes "\<forall>l \<in> set (scriptLines st). status l \<noteq> Generating"
  shows "\<forall>l \<in> set (scriptLines (processBatch gen host session st)). status l \<noteq> Generating"
proof (cases "isProcessingBatch st")
  case True
  with assms show ?thesis by (simp add: processBatch_def)
next
  case False
  have loop: "\<forall>l \<in> set (scriptLines (outcomeState (batchLoop gen host r (loopStart session r st)))).
      status l \<noteq> Generating" for r
  proof -
    from assms have "\<forall>j < length (scriptLines (loopStart session r st)).
        status (scriptLines (loopStart session r st) ! j) \<noteq> Generating"
      by simp
    from loop_no_generating [OF this, of gen host r]
      loop_length [of gen host r "loopStart session r st"]
    show ?thesis by (simp add: all_set_conv_all_nth)
  qed
  from False show ?thesis
  proof (cases rule: processBatch_cases [where gen = gen and host = host and session = session])
    case nothing
    with assms show ?thesis by simp
  next
    case (quota r st')
    with loop [of r] show ?thesis by simp
  next
    case (exit r st')
    with loop [of r] show ?thesis by simp
  qed
qed

lemma reachable_no_generating:
  "reachableLines ls \<Longrightarrow> \<forall>l \<in> set ls. status l \<noteq> Generating"
proof (induction rule: reachableLines.induct)
  case initial
  show ?case by simp
next
  case (uploaded t)
  show ?case using parseScript_all_pending [of _ t] by auto
next
  case (processed st gen host session)
  then show ?case by (intro processBatch_no_generating)
qed

lemma callsWithinBudget_quiet_prefix:
  "\<forall>ev \<in> set q. \<not> isCallOrBackoff ev \<Longrightarrow> callsWithinBudget n (q @ a) = callsWithinBudget n a"
proof (induction q)
  case Nil
  show ?case by simp
next
  case (Cons ev q)
  then show ?case by (cases ev) simp_all
qed

lemma callsWithinBudget_quiet:
  "\<forall>ev \<in> set q. \<not> isCallOrBackoff ev \<Longrightarrow> callsWithinBudget n q"
  using callsWithinBudget_quiet_prefix [of q n "[]"] by simp

lemma quiet_not_call:
  "\<not> isCallOrBackoff ev \<Longrightarrow> \<not> isSuccessCall ev \<and> \<not> isQuotaCall ev \<and> \<not> isGenerateCall ev"
  by (cases ev rule: isSuccessCall.cases) simp_all

lemma successes_quiet: "\<forall>ev \<in> set q. \<not> isCallOrBackoff ev \<Longrightarrow> successes q = 0"
  by (auto simp: successes_def filter_empty_conv quiet_not_call)

lemma loop_quota_signalled:
  "batchLoop gen host r st = Inl st' \<Longrightarrow> \<exists>ev \<in> set (eventsSince st st'). isQuotaCall ev"
proof -
  have "\<forall>s'. batchLoop gen host r st = Inl s' \<longrightarrow> (\<exists>ev \<in> set (eventsSince st s'). isQuotaCall ev)"
  proof (induction r st rule: batchLoop_induct [where gen = gen and host = host])
    case (stop r st)
    show ?case by simp
  next
    case (quota r st st')
    from body_quota_iff(1) [OF quota(3)] show ?case by simp
  next
    case (continue r st st1)
    show ?case
    proof (intro allI impI)
      fix s' assume res: "batchLoop gen host (Suc r) st1 = Inl s'"
      from loop_events_continue [OF continue(3), of "Suc r"] res
      have "eventsSince st s' = eventsSince st st1 @ eventsSince st1 s'" by simp
      with continue(4) res show "\<exists>ev \<in> set (eventsSince st s'). isQuotaCall ev" by auto
    qed
  qed
  then show "batchLoop gen host r st = Inl st' \<Longrightarrow> ?thesis" by blast
qed

lemma quiet_filter: "\<forall>ev \<in> set q. \<not> isCallOrBackoff ev \<Longrightarrow> filter isCallOrBackoff q = []"
  by (simp add: filter_empty_conv)

subsection \<open>The stored session during a run\<close>

lemma apiKeySession_sel [simp]:
  "apiKeySession (emit ev st) = apiKeySession st"
  "apiKeySession (addLog m st) = apiKeySession st"
  "apiKeySession (prepareLine r st) = apiKeySession st"
  "apiKeySession (onSuccess host r b st)
     = Some ((currentSession st)\<lparr>used := used (currentSession st) + 1\<rparr>)"
  "apiKeySession (onAttemptsExhausted r message st) = apiKeySession st"
  "apiKeySession (onQuotaHit r st) = apiKeySession st"
  "apiKeySession (loopStart session r st) = apiKeySession st"
  "apiKeySession (afterLoop st) = apiKeySession st"
  "apiKeySession (setIsProcessingBatch flag st) = apiKeySession st"
  by (simp_all add: emit_def addLog_def prepareLine_def onSuccess_def onAttemptsExhausted_def
        onQuotaHit_def loopStart_def afterLoop_def Let_def setApiKeySession_def
        setShowKeyModal_def setTempKey_def setKeyModalMessage_def setError_def
        setIsProcessingBatch_def split: option.splits)

lemma body_credential_Inr:
  "loopBody gen host r st = Inr (r', st') \<Longrightarrow>
     (syncCredential st' = syncCredential st
      \<or> syncCredential st' = Some (key (currentSession st)))
     \<and> key (currentSession st') = key (currentSession st)"
  by (auto simp: body_simps syncCredential_def split: if_splits gen_result.splits)

lemma body_credential_Inl:
  "loopBody gen host r st = Inl st' \<Longrightarrow> syncCredential st' = syncCredential st"
  by (auto simp: body_simps syncCredential_def split: if_splits gen_result.splits)

lemma loop_credential:
  "syncCredential (outcomeState (batchLoop gen host r st)) = syncCredential st
   \<or> syncCredential (outcomeState (batchLoop gen host r st)) = Some (key (currentSession st))"
proof (induction r st rule: batchLoop_induct [where gen = gen and host = host])
  case (stop r st)
  show ?case by simp
next
  case (quota r st st')
  then show ?case by (simp add: body_credential_Inl)
next
  case (continue r st st1)
  from continue.IH body_credential_Inr [OF continue.hyps(3)] show ?case
    by auto
qed

text \<open>The lines of \<open>resumedState\<close> are those that a run stopped by quota exhaustion on the
  second line leaves.\<close>

lemma resumedState_lines:
  "scriptLines (processBatch quotaOnSecondLine exampleHost (exampleSession 5) exampleState)
     = scriptLines resumedState"
  by code_simp

section \<open>Batch generation controller: the claims\<close>

text \<open>
  A run that is stopped by quota exhaustion on its first call, started as
  \<^verbatim>\<open>handleKeySubmit\<close> starts it: when it returns the key dialog is open and the key
  field is empty, and the stored session still holds the key \<^verbatim>\<open>k\<close> that
  \<^verbatim>\<open>handleSync\<close> would send.
\<close>

theorem quota_keeps_session_key:
  "GenerateCall 0 1 (QuotaError (js ''quota''))
     \<in> set (runEvents quotaAtOnce exampleHost (exampleSession 5) keyAcceptedState)
   \<and> syncCredential keyAcceptedState = Some (js ''k'')
   \<and> showKeyModal (processBatch quotaAtOnce exampleHost (exampleSession 5) keyAcceptedState)
   \<and> tempKey (processBatch quotaAtOnce exampleHost (exampleSession 5) keyAcceptedState) = []
   \<and> syncCredential (processBatch quotaAtOnce exampleHost (exampleSession 5) keyAcceptedState)
       = Some (js ''k'')"
  by code_simp

text \<open>
  Claim C1, as the code has it. Some call to the generator, made for line \<open>i\<close>, signals
  quota exhaustion. Then line \<open>i\<close> is pending when the run returns; the lines after it
  are as they were when the run started; what follows the signal in the trace is the log
  entry, the refresh of the lines, the release of the run flag, the error message naming
  the line, the prompt text, the clearing of the key field \<^verbatim>\<open>tempKey\<close> and only then
  the opening of the key dialog, with no further call to the generator; and the key field
  is empty and the dialog open in the state returned. The stored session
  \<^verbatim>\<open>apiKeySession\<close> is not cleared: the key it holds when the run returns is the key
  it held when the run started or the key of the session the run was given.
\<close>

theorem quota_exhaustion_resets_line:
  assumes "\<not> isProcessingBatch st"
    and "GenerateCall i k (QuotaError m) \<in> set (runEvents gen host session st)"
  shows "i < length (scriptLines st)
    \<and> status (scriptLines (processBatch gen host session st) ! i) = Pending
    \<and> (\<forall>j > i. scriptLines (processBatch gen host session st) ! j = scriptLines st ! j)
    \<and> eventsAfterQuota (runEvents gen host session st)
        = [AddLog (LogQuotaError m),
           SetScriptLines (scriptLines (processBatch gen host session st)),
           SetIsProcessingBatch False,
           SetError (Some (ErrQuotaExhaustedAt (i + 1))),
           SetKeyModalMessage MsgQuotaPrompt,
           SetTempKey [],
           SetShowKeyModal True]
    \<and> tempKey (processBatch gen host session st) = []
    \<and> showKeyModal (processBatch gen host session st)
    \<and> \<not> isProcessingBatch (processBatch gen host session st)
    \<and> (syncCredential (processBatch gen host session st) = syncCredential st
        \<or> syncCredential (processBatch gen host session st) = Some (key session))"
  using assms(1)
proof (cases rule: processBatch_cases [where gen = gen and host = host and session = session])
  case nothing
  with assms(2) show ?thesis by simp
next
  case (quota r st')
  let ?s = "loopStart session r st"
  have cr: "syncCredential st' = syncCredential st \<or> syncCredential st' = Some (key session)"
    using loop_credential [of gen host r ?s] unfolding quota(2)
    by (simp add: syncCredential_def)
  from assms(2) have ev: "GenerateCall i k (QuotaError m) \<in> set (eventsSince ?s st')"
    unfolding quota(4) by simp
  from loop_calls [of i k "QuotaError m" ?s gen host r] ev quota(2)
  have i: "i < length (scriptLines st)" by simp
  have "eventsAfterQuota (runEvents gen host session st) = eventsAfterQuota (eventsSince ?s st')"
    unfolding quota(4) by (rule eventsAfterQuota_append) simp
  with loop_quota_Inl [OF quota(2) ev] i cr show ?thesis
    unfolding quota(3) by simp
next
  case (exit r st')
  let ?e = "setIsProcessingBatch False st'"
  from loop_quota_Inr [OF exit(2)] afterLoop_trace [of ?e] assms(2)
  have False unfolding exit(4) by (auto dest: quiet_not_call)
  then show ?thesis ..
qed

theorem quota_exhaustion_resets_line_witness:
  "\<not> isProcessingBatch keyAcceptedState
   \<and> GenerateCall 1 1 (QuotaError (js ''quota''))
       \<in> set (runEvents quotaOnSecondLine exampleHost (exampleSession 5) keyAcceptedState)
   \<and> (2::nat) > 1
   \<and> map status (scriptLines (processBatch quotaOnSecondLine exampleHost (exampleSession 5) keyAcceptedState))
       = [Completed, Pending, Pending]
   \<and> scriptLines (processBatch quotaOnSecondLine exampleHost (exampleSession 5) keyAcceptedState) ! 2
       = scriptLines keyAcceptedState ! 2
   \<and> tempKey (processBatch quotaOnSecondLine exampleHost (exampleSession 5) keyAcceptedState) = []
   \<and> showKeyModal (processBatch quotaOnSecondLine exampleHost (exampleSession 5) keyAcceptedState)
   \<and> drop 4 (eventsAfterQuota
                (runEvents quotaOnSecondLine exampleHost (exampleSession 5) keyAcceptedState))
       = [SetKeyModalMessage MsgQuotaPrompt, SetTempKey [], SetShowKeyModal True]
   \<and> syncCredential (processBatch quotaOnSecondLine exampleHost (exampleSession 5) keyAcceptedState)
       = Some (js ''k'')"
proof -
  have h: "\<not> isProcessingBatch keyAcceptedState"
    "GenerateCall 1 1 (QuotaError (js ''quota''))
       \<in> set (runEvents quotaOnSecondLine exampleHost (exampleSession 5) keyAcceptedState)"
    by code_simp+
  have m: "map status (scriptLines (processBatch quotaOnSecondLine exampleHost (exampleSession 5) keyAcceptedState))
       = [Completed, Pending, Pending]"
    by code_simp
  have k: "syncCredential keyAcceptedState = Some (js ''k'')" "key (exampleSession 5) = js ''k''"
    by code_simp+
  from quota_exhaustion_resets_line [OF h] h m k show ?thesis by auto
qed

text \<open>
  Claim C2. A run starts with a session whose counter is within its budget \<open>L\<close>. Then
  every call to the generator is made while the counter is below \<open>L\<close>; every value of
  the counter that the run publishes is at most \<open>L\<close>, and so is the counter when the run
  returns; the budget itself is unchanged. If no quota signal occurred and some line that
  was pending or failed at the start has not been attempted, the counter equals \<open>L\<close>:
  the run stops short of a line only when the budget is used up. If no quota signal
  occurred and a pending line remains, the counter equals \<open>L\<close> and the operator is
  prompted with the key field cleared.
\<close>

theorem budget_never_exceeded:
  assumes "\<not> isProcessingBatch st" and "used session \<le> limit session"
  shows "callsWithinBudget (limit session - used session) (runEvents gen host session st)
    \<and> list_all snapshotWithinBudget (runEvents gen host session st)
    \<and> used (currentSession (processBatch gen host session st)) \<le> limit session
    \<and> limit (currentSession (processBatch gen host session st)) = limit session
    \<and> ((\<forall>ev \<in> set (runEvents gen host session st). \<not> isQuotaCall ev)
        \<and> (\<exists>j < length (scriptLines st).
              (status (scriptLines st ! j) = Pending \<or> status (scriptLines st ! j) = Failed)
              \<and> (\<forall>k x. GenerateCall j k x \<notin> set (runEvents gen host session st))) \<longrightarrow>
         used (currentSession (processBatch gen host session st)) = limit session)
    \<and> ((\<forall>ev \<in> set (runEvents gen host session st). \<not> isQuotaCall ev)
        \<and> (\<exists>l \<in> set (scriptLines (processBatch gen host session st)). status l = Pending) \<longrightarrow>
         used (currentSession (processBatch gen host session st)) = limit session
         \<and> tempKey (processBatch gen host session st) = []
         \<and> showKeyModal (processBatch gen host session st))"
  using assms(1)
proof (cases rule: processBatch_cases [where gen = gen and host = host and session = session])
  case nothing
  note n = this
  from n(1) have "\<forall>l \<in> set (scriptLines st). \<not> (status l = Pending \<or> status l = Failed)"
    by (simp add: findIndex_None)
  with n assms(2) show ?thesis by auto
next
  case (quota r st')
  let ?s = "loopStart session r st"
  from loop_budget [of ?s gen host r] assms(2) quota(2)
  have b: "callsWithinBudget (limit session - used session) (eventsSince ?s st')"
    "list_all snapshotWithinBudget (eventsSince ?s st')"
    "used (currentSession st') \<le> limit (currentSession st')"
    by simp_all
  from loop_session [of gen host r ?s] quota(2)
  have l: "limit (currentSession st') = limit session" by simp
  from loop_quota_signalled [OF quota(2)]
  have q: "\<exists>ev \<in> set (eventsSince ?s st'). isQuotaCall ev" .
  from b l q show ?thesis
    unfolding quota(3,4) by (auto simp: callsWithinBudget_quiet_prefix)
next
  case (exit r st')
  let ?s = "loopStart session r st"
  let ?e = "setIsProcessingBatch False st'"
  note fi = findIndex_Some [OF exit(1)]
  from loop_budget [of ?s gen host r] assms(2) exit(2)
  have b: "callsWithinBudget (limit session - used session) (eventsSince ?s st')"
    "list_all snapshotWithinBudget (eventsSince ?s st')"
    "used (currentSession st') \<le> limit (currentSession st')"
    by simp_all
  from loop_session [of gen host r ?s] exit(2)
  have l: "limit (currentSession st') = limit session" by simp
  note tail = afterLoop_trace [of ?e]
  have quiet: "\<forall>ev \<in> set ([SetIsProcessingBatch False] @ eventsSince ?e (afterLoop ?e)).
      \<not> isCallOrBackoff ev"
    using tail by simp
  have c1: "callsWithinBudget (limit session - used session) (runEvents gen host session st)"
  proof -
    have "callsWithinBudget (limit session - used session)
            (eventsSince ?s st' @ ([SetIsProcessingBatch False] @ eventsSince ?e (afterLoop ?e)))"
      by (rule callsWithinBudget_append [OF b(1) callsWithinBudget_quiet [OF quiet]])
    then show ?thesis unfolding exit(4) by simp
  qed
  have c2: "list_all snapshotWithinBudget (runEvents gen host session st)"
    unfolding exit(4) using b(2) tail by (auto simp: list_all_iff)
  have c3: "used (currentSession (processBatch gen host session st)) \<le> limit session"
    "limit (currentSession (processBatch gen host session st)) = limit session"
    unfolding exit(3) using b(3) l by simp_all
  have c4: "used (currentSession (processBatch gen host session st)) = limit session"
    if j: "j < length (scriptLines st)"
      "status (scriptLines st ! j) = Pending \<or> status (scriptLines st ! j) = Failed"
      "\<forall>k x. GenerateCall j k x \<notin> set (runEvents gen host session st)" for j
  proof -
    from fi j(2) have rj: "r \<le> j" by (meson not_le_imp_less)
    from j(3) have none: "\<forall>k x. GenerateCall j k x \<notin> set (eventsSince ?s st')"
      unfolding exit(4) by simp
    from j(2) have nc: "status (scriptLines ?s ! j) \<noteq> Completed" by auto
    from loop_unattempted [OF exit(2) rj _ nc none] j(1)
    have "limit (currentSession st') \<le> used (currentSession st')" by simp
    with b(3) l show ?thesis unfolding exit(3) by simp
  qed
  have c5: "used (currentSession (processBatch gen host session st)) = limit session
         \<and> tempKey (processBatch gen host session st) = []
         \<and> showKeyModal (processBatch gen host session st)"
    if p: "\<exists>l \<in> set (scriptLines (processBatch gen host session st)). status l = Pending"
  proof -
    from p obtain j where j: "j < length (scriptLines st')" "status (scriptLines st' ! j) = Pending"
      unfolding exit(3) by (auto simp: in_set_conv_nth)
    from loop_length [of gen host r ?s] exit(2) have len: "length (scriptLines st') = length (scriptLines st)"
      by simp
    have "r \<le> j"
    proof (rule ccontr)
      assume "\<not> r \<le> j"
      then have "j < r" by simp
      with loop_frame [of j r ?s gen host] exit(2) have "scriptLines st' ! j = scriptLines st ! j"
        by simp
      with fi \<open>j < r\<close> j(2) show False by auto
    qed
    with loop_exit [OF exit(2)] j len have full: "limit (currentSession st') \<le> used (currentSession st')"
      by auto
    from p have "findIndex (\<lambda>l. status l = Pending) (scriptLines ?e) \<noteq> None"
      unfolding exit(3) by (simp add: findIndex_None)
    from afterLoop_pause [OF this] full b(3) l show ?thesis
      unfolding exit(3) by simp
  qed
  from c1 c2 c3 c4 c5 show ?thesis by blast
qed

theorem budget_never_exceeded_witness:
  "\<not> isProcessingBatch exampleState
   \<and> used (exampleSession 1) \<le> limit (exampleSession 1)
   \<and> filter isQuotaCall (runEvents failingFirstLine exampleHost (exampleSession 1) exampleState) = []
   \<and> (2::nat) < length (scriptLines exampleState)
   \<and> status (scriptLines exampleState ! 2) = Pending
   \<and> filter isGenerateCall (runEvents failingFirstLine exampleHost (exampleSession 1) exampleState)
       = [GenerateCall 0 1 (OtherError []), GenerateCall 0 2 (OtherError []),
          GenerateCall 0 3 (OtherError []), GenerateCall 1 1 (Image (js ''img''))]
   \<and> scriptLines (processBatch failingFirstLine exampleHost (exampleSession 1) exampleState) ! 2
       \<in> set (scriptLines (processBatch failingFirstLine exampleHost (exampleSession 1) exampleState))
   \<and> status (scriptLines (processBatch failingFirstLine exampleHost (exampleSession 1) exampleState) ! 2)
       = Pending
   \<and> callsWithinBudget 1 (runEvents failingFirstLine exampleHost (exampleSession 1) exampleState)
   \<and> used (currentSession (processBatch failingFirstLine exampleHost (exampleSession 1) exampleState)) = 1
   \<and> tempKey (processBatch failingFirstLine exampleHost (exampleSession 1) exampleState) = []
   \<and> showKeyModal (processBatch failingFirstLine exampleHost (exampleSession 1) exampleState)"
proof -
  let ?evs = "runEvents failingFirstLine exampleHost (exampleSession 1) exampleState"
  let ?after = "processBatch failingFirstLine exampleHost (exampleSession 1) exampleState"
  have h: "\<not> isProcessingBatch exampleState" "used (exampleSession 1) \<le> limit (exampleSession 1)"
    by code_simp+
  have q: "filter isQuotaCall ?evs = []" by code_simp
  have g: "filter isGenerateCall ?evs
       = [GenerateCall 0 1 (OtherError []), GenerateCall 0 2 (OtherError []),
          GenerateCall 0 3 (OtherError []), GenerateCall 1 1 (Image (js ''img''))]"
    by code_simp
  have l: "(2::nat) < length (scriptLines exampleState)"
    "status (scriptLines exampleState ! 2) = Pending"
    "status (scriptLines ?after ! 2) = Pending"
    "(2::nat) < length (scriptLines ?after)"
    "limit (exampleSession 1) - used (exampleSession 1) = 1"
    "limit (exampleSession 1) = 1"
    by code_simp+
  from q have noq: "\<forall>ev \<in> set ?evs. \<not> isQuotaCall ev"
    by (simp add: filter_empty_conv)
  have nocall: "\<forall>k x. GenerateCall 2 k x \<notin> set ?evs"
  proof (intro allI notI)
    fix k x assume "GenerateCall 2 k x \<in> set ?evs"
    then have "GenerateCall 2 k x \<in> set (filter isGenerateCall ?evs)" by simp
    then show False unfolding g by simp
  qed
  from l(4) have p1: "scriptLines ?after ! 2 \<in> set (scriptLines ?after)"
    by (rule nth_mem)
  with l(3) have p2: "\<exists>l \<in> set (scriptLines ?after). status l = Pending"
    by blast
  note p = p1 p2
  from budget_never_exceeded [OF h, of failingFirstLine exampleHost] h q g l noq nocall p
  show ?thesis by (simp del: One_nat_def)
qed

text \<open>
  The three attempts for the first line fail with errors whose message is empty: the
  line ends failed, with the empty string as its error message.
\<close>

theorem retry_exhaustion_empty_message:
  "filter isGenerateCall (runEvents failingFirstLine exampleHost (exampleSession 1) exampleState)
     = [GenerateCall 0 1 (OtherError []), GenerateCall 0 2 (OtherError []),
        GenerateCall 0 3 (OtherError []), GenerateCall 1 1 (Image (js ''img''))]
   \<and> status (scriptLines (processBatch failingFirstLine exampleHost (exampleSession 1) exampleState) ! 0)
       = Failed
   \<and> error (scriptLines (processBatch failingFirstLine exampleHost (exampleSession 1) exampleState) ! 0)
       = Some []"
  by code_simp

text \<open>
  Claim C5, as the code has it. The third attempt for line \<open>i\<close> fails with an error, not
  a quota signal, of message \<open>m\<close>. Then line \<open>i\<close> is failed when the run returns and
  its error message is \<open>m\<close> (empty if \<open>m\<close> is empty); among the calls and timers of
  the run, the three attempts for the line are separated by one backoff of 1500
  milliseconds each, and the third is followed by no backoff but, if by anything, by the
  first attempt for another line; and if the next line exists and is not completed, its
  first attempt is made in the same run.
\<close>

theorem retry_exhaustion_marks_failed:
  assumes "\<not> isProcessingBatch st"
    and "GenerateCall i 3 (OtherError m) \<in> set (runEvents gen host session st)"
  shows "status (scriptLines (processBatch gen host session st) ! i) = Failed
    \<and> error (scriptLines (processBatch gen host session st) ! i) = Some m
    \<and> (\<exists>pre post m1 m2.
          filter isCallOrBackoff (runEvents gen host session st)
            = pre @ [GenerateCall i 1 (OtherError m1), Backoff 1500,
                     GenerateCall i 2 (OtherError m2), Backoff 1500,
                     GenerateCall i 3 (OtherError m)] @ post
          \<and> (post = [] \<or> (\<exists>j x rest. post = GenerateCall j 1 x # rest)))
    \<and> (Suc i < length (scriptLines st) \<and> status (scriptLines st ! Suc i) \<noteq> Completed \<longrightarrow>
         GenerateCall (Suc i) 1 (gen (Suc i) 1) \<in> set (runEvents gen host session st))"
  using assms(1)
proof (cases rule: processBatch_cases [where gen = gen and host = host and session = session])
  case nothing
  with assms(2) show ?thesis by simp
next
  case (quota r st')
  let ?s = "loopStart session r st"
  from quota(2) have o: "outcomeState (batchLoop gen host r ?s) = st'" by simp
  from assms(2) have ev: "GenerateCall i 3 (OtherError m) \<in> set (eventsSince ?s st')"
    unfolding quota(4) by simp
  have f: "filter isCallOrBackoff (runEvents gen host session st)
      = filter isCallOrBackoff (eventsSince ?s st')"
    unfolding quota(4) by simp
  from loop_failed [of i m ?s gen host r] ev o show ?thesis
    unfolding f quota(3) by (simp add: quota(4))
next
  case (exit r st')
  let ?s = "loopStart session r st"
  let ?e = "setIsProcessingBatch False st'"
  from exit(2) have o: "outcomeState (batchLoop gen host r ?s) = st'" by simp
  note tail = afterLoop_trace [of ?e]
  from assms(2) tail have ev: "GenerateCall i 3 (OtherError m) \<in> set (eventsSince ?s st')"
    unfolding exit(4) by auto
  have f: "filter isCallOrBackoff (runEvents gen host session st)
      = filter isCallOrBackoff (eventsSince ?s st')"
    unfolding exit(4) using tail by (simp add: quiet_filter)
  from loop_failed [of i m ?s gen host r] ev o show ?thesis
    unfolding f exit(3) by (simp add: exit(4))
qed

theorem retry_exhaustion_marks_failed_witness:
  "\<not> isProcessingBatch exampleState
   \<and> GenerateCall 0 3 (OtherError [])
       \<in> set (runEvents failingFirstLine exampleHost (exampleSession 1) exampleState)
   \<and> Suc 0 < length (scriptLines exampleState)
   \<and> status (scriptLines exampleState ! Suc 0) = Pending
   \<and> status (scriptLines (processBatch failingFirstLine exampleHost (exampleSession 1) exampleState) ! 0)
       = Failed
   \<and> GenerateCall (Suc 0) 1 (failingFirstLine (Suc 0) 1)
       \<in> set (runEvents failingFirstLine exampleHost (exampleSession 1) exampleState)
   \<and> filter isCallOrBackoff (runEvents failingFirstLine exampleHost (exampleSession 1) exampleState)
       = [GenerateCall 0 1 (OtherError []), Backoff 1500,
          GenerateCall 0 2 (OtherError []), Backoff 1500,
          GenerateCall 0 3 (OtherError []), GenerateCall 1 1 (Image (js ''img''))]"
proof -
  have h: "\<not> isProcessingBatch exampleState"
    "GenerateCall 0 3 (OtherError [])
       \<in> set (runEvents failingFirstLine exampleHost (exampleSession 1) exampleState)"
    by code_simp+
  have l: "Suc 0 < length (scriptLines exampleState)"
    "status (scriptLines exampleState ! Suc 0) = Pending"
    by code_simp+
  have t: "filter isCallOrBackoff (runEvents failingFirstLine exampleHost (exampleSession 1) exampleState)
       = [GenerateCall 0 1 (OtherError []), Backoff 1500,
          GenerateCall 0 2 (OtherError []), Backoff 1500,
          GenerateCall 0 3 (OtherError []), GenerateCall 1 1 (Image (js ''img''))]"
    by code_simp
  from retry_exhaustion_marks_failed [OF h] h l t show ?thesis by simp
qed

text \<open>
  Claim C6. The line sequence of the component is either empty, or fresh from the parser,
  or left by an earlier run. From any such sequence, whichever way the run ends (all lines
  visited, budget used up, quota exhausted, or the call rejected by the re-entrancy guard),
  every line is pending, completed or failed when \<^verbatim>\<open>processBatch\<close> returns.
\<close>

theorem no_line_left_generating:
  "reachableLines (scriptLines st) \<Longrightarrow>
     \<forall>l \<in> set (scriptLines (processBatch gen host session st)).
        status l = Pending \<or> status l = Completed \<or> status l = Failed"
proof -
  assume "reachableLines (scriptLines st)"
  then have "reachableLines (scriptLines (processBatch gen host session st))"
    by (rule reachableLines.processed)
  from reachable_no_generating [OF this] show ?thesis
    by (metis status.exhaust)
qed

theorem no_line_left_generating_witness:
  "reachableLines (scriptLines exampleState)
   \<and> scriptLines (processBatch failingFirstLine exampleHost (exampleSession 1) exampleState) ! 2
       \<in> set (scriptLines (processBatch failingFirstLine exampleHost (exampleSession 1) exampleState))
   \<and> map status (scriptLines (processBatch failingFirstLine exampleHost (exampleSession 1) exampleState))
       = [Failed, Completed, Pending]"
proof -
  have r: "reachableLines (scriptLines exampleState)"
    unfolding exampleLines_parsed [symmetric] by (rule reachableLines.uploaded)
  have m: "map status (scriptLines (processBatch failingFirstLine exampleHost (exampleSession 1) exampleState))
       = [Failed, Completed, Pending]"
    by code_simp
  have "length (scriptLines (processBatch failingFirstLine exampleHost (exampleSession 1) exampleState)) = 3"
    using arg_cong [OF m, of length] by simp
  then have e: "scriptLines (processBatch failingFirstLine exampleHost (exampleSession 1) exampleState) ! 2
       \<in> set (scriptLines (processBatch failingFirstLine exampleHost (exampleSession 1) exampleState))"
    by simp
  from no_line_left_generating [OF r, of failingFirstLine exampleHost "exampleSession 1"] r e m
  show ?thesis by blast
qed

text \<open>
  Claim C9. The counter of the session after a run is its value before plus the number
  of calls to the generator that succeeded during the run: failed and quota-aborted
  attempts add nothing. With budget 1, a run can therefore attempt two lines: the first
  fails three times, the second succeeds.
\<close>

theorem consumption_counts_successes:
  "\<not> isProcessingBatch st \<Longrightarrow>
     used (currentSession (processBatch gen host session st))
       = used session + int (successes (runEvents gen host session st))
     \<and> limit (exampleSession 1) = 1
     \<and> GenerateCall 0 3 (OtherError [])
         \<in> set (runEvents failingFirstLine exampleHost (exampleSession 1) exampleState)
     \<and> GenerateCall 1 1 (Image (js ''img''))
         \<in> set (runEvents failingFirstLine exampleHost (exampleSession 1) exampleState)"
proof -
  assume a: "\<not> isProcessingBatch st"
  have ex: "limit (exampleSession 1) = 1"
    "GenerateCall 0 3 (OtherError [])
         \<in> set (runEvents failingFirstLine exampleHost (exampleSession 1) exampleState)"
    "GenerateCall 1 1 (Image (js ''img''))
         \<in> set (runEvents failingFirstLine exampleHost (exampleSession 1) exampleState)"
    by code_simp+
  from a have "used (currentSession (processBatch gen host session st))
       = used session + int (successes (runEvents gen host session st))"
  proof (cases rule: processBatch_cases [where gen = gen and host = host and session = session])
    case nothing
    then show ?thesis by (simp add: successes_def)
  next
    case (quota r st')
    from loop_session [of gen host r "loopStart session r st"] quota(2)
    have "used (currentSession st')
        = used session + int (successes (eventsSince (loopStart session r st) st'))"
      by simp
    then show ?thesis unfolding quota(3,4) by (simp add: successes_def)
  next
    case (exit r st')
    let ?e = "setIsProcessingBatch False st'"
    from loop_session [of gen host r "loopStart session r st"] exit(2)
    have "used (currentSession st')
        = used session + int (successes (eventsSince (loopStart session r st) st'))"
      by simp
    moreover from afterLoop_trace [of ?e] have "successes (eventsSince ?e (afterLoop ?e)) = 0"
      by (intro successes_quiet) simp
    ultimately show ?thesis unfolding exit(3,4) by (simp add: successes_def)
  qed
  with ex show ?thesis by blast
qed

theorem consumption_counts_successes_witness:
  "\<not> isProcessingBatch resumedState
   \<and> successes (runEvents quotaOnSecondLine exampleHost (exampleSession 5) resumedState) = 0
   \<and> used (currentSession (processBatch quotaOnSecondLine exampleHost (exampleSession 5) resumedState)) = 0
   \<and> filter isGenerateCall (runEvents quotaOnSecondLine exampleHost (exampleSession 5) resumedState)
       = [GenerateCall 1 1 (QuotaError (js ''quota''))]"
proof -
  have a: "\<not> isProcessingBatch resumedState"
    "successes (runEvents quotaOnSecondLine exampleHost (exampleSession 5) resumedState) = 0"
    "used (exampleSession 5) = 0"
    "filter isGenerateCall (runEvents quotaOnSecondLine exampleHost (exampleSession 5) resumedState)
       = [GenerateCall 1 1 (QuotaError (js ''quota''))]"
    by code_simp+
  from consumption_counts_successes [OF a(1), of quotaOnSecondLine exampleHost "exampleSession 5"] a
  show ?thesis by simp
qed

text \<open>
  Claim C10. A line that is completed when a run starts is the same record when the run
  returns (status, payload, filename, batch identifier, timestamp and error alike); the
  sequence keeps its length; and the run makes no call to the generator for that line.
\<close>

theorem completed_lines_untouched:
  "j < length (scriptLines st) \<Longrightarrow> status (scriptLines st ! j) = Completed \<Longrightarrow>
     scriptLines (processBatch gen host session st) ! j = scriptLines st ! j
     \<and> length (scriptLines (processBatch gen host session st)) = length (scriptLines st)
     \<and> (\<forall>k x. GenerateCall j k x \<notin> set (runEvents gen host session st))"
proof (cases "isProcessingBatch st")
  case True
  then show ?thesis by (simp add: runEvents_noop) (simp add: processBatch_def)
next
  case False
  assume c: "status (scriptLines st ! j) = Completed"
  from False show ?thesis
  proof (cases rule: processBatch_cases [where gen = gen and host = host and session = session])
    case nothing
    then show ?thesis by simp
  next
    case (quota r st')
    from loop_frame [of j r "loopStart session r st" gen host]
      loop_length [of gen host r "loopStart session r st"]
      loop_no_call_completed [of "loopStart session r st" j _ _ gen host r] c quota
    show ?thesis by simp
  next
    case (exit r st')
    from loop_frame [of j r "loopStart session r st" gen host]
      loop_length [of gen host r "loopStart session r st"]
      loop_no_call_completed [of "loopStart session r st" j _ _ gen host r] c exit(1,2,3)
      afterLoop_trace [of "setIsProcessingBatch False st'"]
    show ?thesis unfolding exit(4) by auto
  qed
qed

theorem completed_lines_untouched_witness:
  "(0::nat) < length (scriptLines resumedState)
   \<and> status (scriptLines resumedState ! 0) = Completed
   \<and> scriptLines (processBatch failingFirstLine exampleHost (exampleSession 1) resumedState) ! 0
       = scriptLines resumedState ! 0
   \<and> batchId (scriptLines (processBatch failingFirstLine exampleHost (exampleSession 1) resumedState) ! 0)
       = Some 1"
proof -
  have a: "(0::nat) < length (scriptLines resumedState)"
    "status (scriptLines resumedState ! 0) = Completed"
    "batchId (scriptLines resumedState ! 0) = Some 1"
    by code_simp+
  from completed_lines_untouched [OF a(1,2), of failingFirstLine exampleHost "exampleSession 1"] a
  show ?thesis by simp
qed


end
